theory Spec2Isabelle
  imports Complex_Main "HOL-Library.Word" "HOL-Library.Monad_Syntax"
begin

unbundle bit_operations_syntax

section \<open>Memory\<close>

text \<open>
  The collector integration layer (igc.c) reads and writes raw memory through casts:
  a cons, a forwarding marker and a padding marker are three views of the same bytes.
  Memory is therefore a function from byte addresses to bytes. A machine word
  (\<open>mps_word_t\<close>, \<open>Lisp_Object\<close>, a pointer) occupies eight consecutive bytes, least
  significant byte first. Addresses that index memory are natural numbers, so a pointer
  stepped through a range never wraps around (in C, stepping a pointer past the end of
  the address space is undefined); the values stored in memory, including stored
  pointers and the references handed to the collector, are 64-bit words, whose
  arithmetic wraps.
\<close>

type_synonym mps_addr_t = nat
type_synonym mps_word_t = "64 word"
type_synonym Lisp_Object = "64 word"
type_synonym mem = "mps_addr_t \<Rightarrow> 8 word"

text \<open>\<open>memcpy (dst, src, n)\<close> with the source given as the list of the \<open>n\<close> bytes copied.\<close>

definition memcpy :: "mem \<Rightarrow> mps_addr_t \<Rightarrow> 8 word list \<Rightarrow> mem" where
  "memcpy m dst bs =
     (\<lambda>x. if dst \<le> x \<and> x < dst + length bs then bs ! (x - dst) else m x)"

definition word_of_bytes :: "8 word list \<Rightarrow> 64 word" where
  "word_of_bytes bs = foldr (\<lambda>b w. ucast b OR push_bit 8 w) bs 0"

definition bytes_of_word :: "64 word \<Rightarrow> 8 word list" where
  "bytes_of_word v = map (\<lambda>i. ucast (drop_bit (8 * i) v)) [0..<8]"

definition load64 :: "mem \<Rightarrow> mps_addr_t \<Rightarrow> 64 word" where
  "load64 m a = word_of_bytes (map (\<lambda>i. m (a + i)) [0..<8])"

definition store64 :: "mem \<Rightarrow> mps_addr_t \<Rightarrow> 64 word \<Rightarrow> mem" where
  "store64 m a v = memcpy m a (bytes_of_word v)"

section \<open>Tagged words\<close>

text \<open>
  The declarations igc.c takes from lisp.h: the values of \<open>enum Lisp_Type\<close> it names,
  the address of the built-in symbol table \<open>lispsym\<close>, \<open>Qnil\<close>, and the size of
  \<open>struct Lisp_Symbol\<close>. lisp.h is not part of the sources at hand, so the functions
  below take these as a parameter.
\<close>

record lisp_h =
  Lisp_Symbol :: mps_word_t
  Lisp_Int0 :: mps_word_t
  Lisp_Int1 :: mps_word_t
  Lisp_Cons :: mps_word_t
  lispsym :: mps_word_t
  Qnil :: Lisp_Object
  sizeof_Lisp_Symbol :: nat

text \<open>The values of an LSB-tag build on a 64-bit machine, used for concrete evaluation.\<close>

definition emacs_lisp_h :: lisp_h where
  "emacs_lisp_h = \<lparr> Lisp_Symbol = 0, Lisp_Int0 = 2, Lisp_Int1 = 6, Lisp_Cons = 3,
                     lispsym = 0x10000, Qnil = 0, sizeof_Lisp_Symbol = 48 \<rparr>"

text \<open>
  igc.c: "I assume that Lisp_Objects are EMACS_INTs, and we are using the 3 lowest bits
  for tags". \<open>IGC_TAG_MASK\<close> is \<open>~ VALMASK\<close>, and \<open>VALMASK\<close> is \<open>- (1 << GCTYPEBITS)\<close>.
\<close>

definition GCTYPEBITS :: nat where
  "GCTYPEBITS = 3"

definition VALMASK :: mps_word_t where
  "VALMASK = - (push_bit GCTYPEBITS 1)"

definition IGC_TAG_MASK :: mps_word_t where
  "IGC_TAG_MASK = NOT VALMASK"

definition IGC_TAG :: "mps_word_t \<Rightarrow> mps_word_t" where
  "IGC_TAG x = x AND IGC_TAG_MASK"

definition IGC_VAL :: "mps_word_t \<Rightarrow> mps_word_t" where
  "IGC_VAL x = x AND NOT IGC_TAG_MASK"

section \<open>The fix protocol\<close>

text \<open>
  \<open>MPS_FIX1\<close> and \<open>MPS_FIX2\<close> belong to the Memory Pool System, not to this program.
  They are parameters: \<open>MPS_FIX1\<close> asks whether a reference is of interest to the
  collector, \<open>MPS_FIX2\<close> returns a result code, the possibly updated reference and the
  new scan state. Neither writes the memory under scan; the slot is written by the
  macro below.
\<close>

type_synonym mps_res_t = int

definition MPS_RES_OK :: mps_res_t where
  "MPS_RES_OK = 0"

record 'ss mps_scan =
  MPS_FIX1 :: "'ss \<Rightarrow> mps_word_t \<Rightarrow> bool"
  MPS_FIX2 :: "'ss \<Rightarrow> mps_word_t \<Rightarrow> mps_res_t \<times> mps_word_t \<times> 'ss"

text \<open>
  The macro \<open>IGC_FIX (ss, x)\<close>. The result is the result code, the scan state and the
  memory; a code other than \<open>MPS_RES_OK\<close> stands for the macro's \<open>return res\<close>, which
  leaves the enclosing scan function at once.
\<close>

definition IGC_FIX ::
  "lisp_h \<Rightarrow> 'ss mps_scan \<Rightarrow> 'ss \<Rightarrow> mem \<Rightarrow> mps_addr_t \<Rightarrow> mps_res_t \<times> 'ss \<times> mem" where
  "IGC_FIX L S ss m p =
     (let word = load64 m p;
          tag = word AND IGC_TAG_MASK
      in if tag \<noteq> Lisp_Int0 L \<and> tag \<noteq> Lisp_Int1 L then
           let off = word XOR tag;
               ref = (if tag = Lisp_Symbol L then lispsym L + off else off)
           in if MPS_FIX1 S ss ref then
                (case MPS_FIX2 S ss ref of
                   (res, ref', ss') \<Rightarrow>
                     if res \<noteq> MPS_RES_OK then (res, ss', m)
                     else let ref'' = (if tag = Lisp_Symbol L then ref' - lispsym L else ref')
                          in (MPS_RES_OK, ss', store64 m p (ref'' OR tag)))
              else (MPS_RES_OK, ss, m)
         else (MPS_RES_OK, ss, m))"

text \<open>A collector used for concrete evaluation: every reference is of interest, and
  every object has moved up by 4096 bytes. Its scan state counts the calls of
  \<open>MPS_FIX2\<close>.\<close>

definition moving_scan :: "nat mps_scan" where
  "moving_scan = \<lparr> MPS_FIX1 = (\<lambda>ss ref. True),
                    MPS_FIX2 = (\<lambda>ss ref. (MPS_RES_OK, ref + 0x1000, Suc ss)) \<rparr>"

section \<open>Forwarding and padding markers\<close>

text \<open>
  \<open>IGC_FWDSIG\<close> and \<open>IGC_PADSIG\<close> are the addresses of the static variables \<open>fwdsig\<close>
  and \<open>padsig\<close>, fixed when the program is linked.
\<close>

record igc_statics =
  IGC_FWDSIG :: mps_word_t
  IGC_PADSIG :: mps_word_t

definition emacs_statics :: igc_statics where
  "emacs_statics = \<lparr> IGC_FWDSIG = 0x20000, IGC_PADSIG = 0x20004 \<rparr>"

text \<open>
  igc.h defines \<open>IGC_DEBUG\<close>, so \<open>IGC_ASSERT (expr)\<close> expands to
  \<open>if (!(expr)) emacs_abort (); else\<close>. Without \<open>IGC_DEBUG\<close> it expands to nothing.
  The functions that assert take the setting as their first argument.
\<close>

datatype abort = emacs_abort

definition IGC_DEBUG :: bool where
  "IGC_DEBUG = True"

definition IGC_ASSERT :: "bool \<Rightarrow> bool \<Rightarrow> abort + 'a \<Rightarrow> abort + 'a" where
  "IGC_ASSERT dbg expr rest = (if dbg \<and> \<not> expr then Inl emacs_abort else rest)"

text \<open>\<open>struct igc_fwd\<close> is the two pointers \<open>sig\<close> and \<open>new\<close>; \<open>struct igc_pad\<close> is the
  pointer \<open>sig\<close>.\<close>

definition sizeof_igc_pad :: nat where
  "sizeof_igc_pad = 8"

definition forward :: "igc_statics \<Rightarrow> mem \<Rightarrow> mps_addr_t \<Rightarrow> mps_word_t \<Rightarrow> mem" where
  "forward G m old new = store64 (store64 m old (IGC_FWDSIG G)) (old + 8) new"

definition is_forwarded :: "igc_statics \<Rightarrow> mem \<Rightarrow> mps_addr_t \<Rightarrow> mps_word_t" where
  "is_forwarded G m addr =
     (if load64 m addr = IGC_FWDSIG G then load64 m (addr + 8) else 0)"

text \<open>The array \<open>string\<close> of \<open>pad\<close>: the seven characters and the terminating zero.\<close>

definition padding_string :: "8 word list" where
  "padding_string = map of_char ''padding'' @ [0]"

function pad_fill :: "mem \<Rightarrow> mps_addr_t \<Rightarrow> mps_addr_t \<Rightarrow> mem" where
  "pad_fill m p e =
     (if p < e then
        let n = min (length padding_string) (e - p)
        in pad_fill (memcpy m p (take n padding_string)) (p + n) e
      else m)"
  by pat_completeness auto
termination
  by (relation "measure (\<lambda>(m, p, e). e - p)") (auto simp: padding_string_def min_def)

declare pad_fill.simps [simp del]

definition pad :: "bool \<Rightarrow> igc_statics \<Rightarrow> mem \<Rightarrow> mps_addr_t \<Rightarrow> nat \<Rightarrow> abort + mem" where
  "pad dbg G m addr sz =
     IGC_ASSERT dbg (sz \<le> sizeof_igc_pad)
       (Inr (pad_fill (store64 m addr (IGC_PADSIG G)) (addr + sizeof_igc_pad) (addr + sz)))"

definition is_padding :: "igc_statics \<Rightarrow> mem \<Rightarrow> mps_addr_t \<Rightarrow> bool" where
  "is_padding G m addr = (load64 m addr = IGC_PADSIG G)"

section \<open>The object format of the cons pool\<close>

text \<open>\<open>struct Lisp_Cons\<close> is two \<open>Lisp_Object\<close> words: \<open>u.s.car\<close>, then \<open>u.s.u.cdr\<close>.\<close>

definition sizeof_Lisp_Cons :: nat where
  "sizeof_Lisp_Cons = 16"

definition car_slot :: "mps_addr_t \<Rightarrow> mps_addr_t" where
  "car_slot cons = cons"

definition cdr_slot :: "mps_addr_t \<Rightarrow> mps_addr_t" where
  "cdr_slot cons = cons + 8"

function cons_scan_loop ::
  "lisp_h \<Rightarrow> igc_statics \<Rightarrow> 'ss mps_scan \<Rightarrow> 'ss \<Rightarrow> mem \<Rightarrow> mps_addr_t \<Rightarrow> mps_addr_t
     \<Rightarrow> mps_res_t \<times> 'ss \<times> mem" where
  "cons_scan_loop L G S ss m cons limit =
     (if cons < limit then
        if is_forwarded G m cons \<noteq> 0 \<or> is_padding G m cons
        then cons_scan_loop L G S ss m (cons + sizeof_Lisp_Cons) limit
        else
          (case IGC_FIX L S ss m (car_slot cons) of
             (res1, ss1, m1) \<Rightarrow>
               if res1 \<noteq> MPS_RES_OK then (res1, ss1, m1)
               else
                 (case IGC_FIX L S ss1 m1 (cdr_slot cons) of
                    (res2, ss2, m2) \<Rightarrow>
                      if res2 \<noteq> MPS_RES_OK then (res2, ss2, m2)
                      else cons_scan_loop L G S ss2 m2 (cons + sizeof_Lisp_Cons) limit))
      else (MPS_RES_OK, ss, m))"
  by pat_completeness auto
termination
  by (relation "measure (\<lambda>(L, G, S, ss, m, cons, limit). limit - cons)")
     (auto simp: sizeof_Lisp_Cons_def)

declare cons_scan_loop.simps [simp del]

definition cons_scan ::
  "lisp_h \<Rightarrow> igc_statics \<Rightarrow> 'ss mps_scan \<Rightarrow> 'ss \<Rightarrow> mem \<Rightarrow> mps_addr_t \<Rightarrow> mps_addr_t
     \<Rightarrow> mps_res_t \<times> 'ss \<times> mem" where
  "cons_scan L G S ss m base limit = cons_scan_loop L G S ss m base limit"

definition cons_skip :: "mps_addr_t \<Rightarrow> mps_addr_t" where
  "cons_skip addr = addr + sizeof_Lisp_Cons"

definition cons_fwd ::
  "bool \<Rightarrow> igc_statics \<Rightarrow> mem \<Rightarrow> mps_addr_t \<Rightarrow> mps_word_t \<Rightarrow> abort + mem" where
  "cons_fwd dbg G m old new = IGC_ASSERT dbg False (Inr (forward G m old new))"

definition cons_isfwd ::
  "bool \<Rightarrow> igc_statics \<Rightarrow> mem \<Rightarrow> mps_addr_t \<Rightarrow> abort + mps_word_t" where
  "cons_isfwd dbg G m addr = IGC_ASSERT dbg False (Inr (is_forwarded G m addr))"

definition cons_pad ::
  "bool \<Rightarrow> igc_statics \<Rightarrow> mem \<Rightarrow> mps_addr_t \<Rightarrow> nat \<Rightarrow> abort + mem" where
  "cons_pad dbg G m addr sz = pad dbg G m addr sz"

text \<open>
  What a scan of \<open>[base, limit)\<close> is expected to do, written without the loop: the
  objects are the addresses \<open>base + 16 * k\<close> below \<open>limit\<close>; the slots to fix are the
  car and the cdr of each object that is not a marker in the memory the scan starts
  from; the fix protocol runs over these slots in order and stops at the first failure.
\<close>

definition cons_objects :: "mps_addr_t \<Rightarrow> mps_addr_t \<Rightarrow> mps_addr_t list" where
  "cons_objects base limit =
     map (\<lambda>k. base + sizeof_Lisp_Cons * k)
       [0..<(limit - base + (sizeof_Lisp_Cons - 1)) div sizeof_Lisp_Cons]"

definition cons_slots :: "igc_statics \<Rightarrow> mem \<Rightarrow> mps_addr_t \<Rightarrow> mps_addr_t \<Rightarrow> mps_addr_t list" where
  "cons_slots G m base limit =
     concat (map (\<lambda>cons. if is_forwarded G m cons \<noteq> 0 \<or> is_padding G m cons then []
                          else [car_slot cons, cdr_slot cons])
                 (cons_objects base limit))"

fun fix_slots ::
  "lisp_h \<Rightarrow> 'ss mps_scan \<Rightarrow> 'ss \<Rightarrow> mem \<Rightarrow> mps_addr_t list \<Rightarrow> mps_res_t \<times> 'ss \<times> mem" where
  "fix_slots L S ss m [] = (MPS_RES_OK, ss, m)"
| "fix_slots L S ss m (p # ps) =
     (case IGC_FIX L S ss m p of
        (res, ss', m') \<Rightarrow>
          if res \<noteq> MPS_RES_OK then (res, ss', m') else fix_slots L S ss' m' ps)"

text \<open>A stretch of cons-pool memory for concrete evaluation, from 4096 to 4144: the
  cons \<open>(0x5003 . 0)\<close>, a padding marker, and a forwarding marker to 0x8000.\<close>

definition scan_example :: mem where
  "scan_example =
     store64 (store64 (store64 (store64 (store64 (\<lambda>a. 0)
       4096 0x5003) 4104 0) 4112 (IGC_PADSIG emacs_statics))
       4128 (IGC_FWDSIG emacs_statics)) 4136 0x8000"

section \<open>The root registry\<close>

text \<open>
  \<open>IGC_DEFINE_LIST (igc_root)\<close> declares the list node \<open>igc_root_list\<close> with the
  functions \<open>igc_root_list_push\<close> and \<open>igc_root_list_remove\<close>. Nodes and \<open>struct igc\<close>
  objects live in a store indexed by address, with 0 for \<open>NULL\<close>. Reading or writing
  through a pointer that is not in the store has no defined result: \<open>None\<close>.
\<close>

record igc_root =
  root_gc :: mps_addr_t
  root_root :: nat
  root_start :: mps_addr_t
  root_end :: mps_addr_t

record igc_root_list =
  list_next :: mps_addr_t
  list_prev :: mps_addr_t
  list_d :: igc_root

record igc =
  igc_arena :: nat
  igc_chain :: nat
  igc_cons_pool :: nat
  igc_cons_fmt :: nat
  igc_symbol_pool :: nat
  igc_symbol_fmt :: nat
  igc_roots :: mps_addr_t
  igc_threads :: mps_addr_t

record heap =
  igcs :: "mps_addr_t \<rightharpoonup> igc"
  root_lists :: "mps_addr_t \<rightharpoonup> igc_root_list"

definition set_prev ::
  "(mps_addr_t \<rightharpoonup> igc_root_list) \<Rightarrow> mps_addr_t \<Rightarrow> mps_addr_t
     \<Rightarrow> (mps_addr_t \<rightharpoonup> igc_root_list) option" where
  "set_prev ns a v = (case ns a of None \<Rightarrow> None | Some n \<Rightarrow> Some (ns(a \<mapsto> n\<lparr>list_prev := v\<rparr>)))"

definition set_next ::
  "(mps_addr_t \<rightharpoonup> igc_root_list) \<Rightarrow> mps_addr_t \<Rightarrow> mps_addr_t
     \<Rightarrow> (mps_addr_t \<rightharpoonup> igc_root_list) option" where
  "set_next ns a v = (case ns a of None \<Rightarrow> None | Some n \<Rightarrow> Some (ns(a \<mapsto> n\<lparr>list_next := v\<rparr>)))"

definition set_roots :: "(mps_addr_t \<rightharpoonup> igc) \<Rightarrow> mps_addr_t \<Rightarrow> mps_addr_t \<Rightarrow> (mps_addr_t \<rightharpoonup> igc) option" where
  "set_roots gs a v = (case gs a of None \<Rightarrow> None | Some g \<Rightarrow> Some (gs(a \<mapsto> g\<lparr>igc_roots := v\<rparr>)))"

text \<open>
  \<open>igc_root_list_push (&gc->roots, d)\<close>. The last argument is the block \<open>xzalloc\<close>
  returns for the new node.
\<close>

definition igc_root_list_push ::
  "heap \<Rightarrow> mps_addr_t \<Rightarrow> igc_root \<Rightarrow> mps_addr_t \<Rightarrow> (mps_addr_t \<times> heap) option" where
  "igc_root_list_push H gcp dv r =
     do {
       g \<leftarrow> igcs H gcp;
       let ns0 = (root_lists H)(r \<mapsto> \<lparr> list_next = igc_roots g, list_prev = 0, list_d = dv \<rparr>);
       ns1 \<leftarrow> (if igc_roots g \<noteq> 0 then set_prev ns0 (igc_roots g) r else Some ns0);
       gs1 \<leftarrow> set_roots (igcs H) gcp r;
       Some (r, H\<lparr> igcs := gs1, root_lists := ns1 \<rparr>)
     }"

text \<open>\<open>igc_root_list_remove (&d, &gc->roots, r)\<close>; \<open>xfree (r)\<close> takes the node out of
  the store.\<close>

definition igc_root_list_remove ::
  "heap \<Rightarrow> mps_addr_t \<Rightarrow> mps_addr_t \<Rightarrow> (igc_root \<times> heap) option" where
  "igc_root_list_remove H gcp r =
     do {
       n0 \<leftarrow> root_lists H r;
       ns1 \<leftarrow> (if list_next n0 \<noteq> 0 then set_prev (root_lists H) (list_next n0) (list_prev n0)
               else Some (root_lists H));
       n1 \<leftarrow> ns1 r;
       ns2 \<leftarrow> (if list_prev n1 \<noteq> 0 then set_next ns1 (list_prev n1) (list_next n1)
               else Some ns1);
       gs2 \<leftarrow> (if list_prev n1 \<noteq> 0 then Some (igcs H)
               else set_roots (igcs H) gcp (list_next n1));
       n2 \<leftarrow> ns2 r;
       Some (list_d n2, H\<lparr> igcs := gs2, root_lists := ns2(r := None) \<rparr>)
     }"

definition register_root ::
  "heap \<Rightarrow> mps_addr_t \<Rightarrow> nat \<Rightarrow> mps_addr_t \<Rightarrow> mps_addr_t \<Rightarrow> mps_addr_t
     \<Rightarrow> (mps_addr_t \<times> heap) option" where
  "register_root H gcp rootv startv endv r =
     igc_root_list_push H gcp
       \<lparr> root_gc = gcp, root_root = rootv, root_start = startv, root_end = endv \<rparr> r"

definition deregister_root :: "heap \<Rightarrow> mps_addr_t \<Rightarrow> (nat \<times> heap) option" where
  "deregister_root H r =
     do {
       n \<leftarrow> root_lists H r;
       (rootv, H') \<leftarrow> igc_root_list_remove H (root_gc (list_d n)) r;
       Some (root_root rootv, H')
     }"

text \<open>
  A well-formed list: \<open>dll ns p pr xs\<close> holds when following \<open>next\<close> from \<open>p\<close> visits
  exactly the nodes \<open>xs\<close> and ends in \<open>NULL\<close>, and each node's \<open>prev\<close> is the node
  before it (\<open>pr\<close> for the first). The registry of the collector at \<open>gcp\<close> is
  well-formed with nodes \<open>xs\<close> when the list from \<open>gc->roots\<close> is, with \<open>NULL\<close>
  before the first node and no node twice.
\<close>

fun dll :: "(mps_addr_t \<rightharpoonup> igc_root_list) \<Rightarrow> mps_addr_t \<Rightarrow> mps_addr_t \<Rightarrow> mps_addr_t list \<Rightarrow> bool" where
  "dll ns p pr [] = (p = 0)"
| "dll ns p pr (x # xs) =
     (p = x \<and> x \<noteq> 0 \<and>
      (case ns x of None \<Rightarrow> False
       | Some n \<Rightarrow> list_prev n = pr \<and> dll ns (list_next n) x xs))"

definition registry :: "heap \<Rightarrow> mps_addr_t \<Rightarrow> mps_addr_t list \<Rightarrow> bool" where
  "registry H gcp xs =
     (case igcs H gcp of None \<Rightarrow> False
      | Some g \<Rightarrow> dll (root_lists H) (igc_roots g) 0 xs \<and> distinct xs)"

definition registered_roots :: "heap \<Rightarrow> mps_addr_t list \<Rightarrow> nat option list" where
  "registered_roots H xs = map (\<lambda>x. map_option (\<lambda>n. root_root (list_d n)) (root_lists H x)) xs"

text \<open>A registry for concrete evaluation: the collector at address 100 with one root
  registered, in the node at address 200.\<close>

definition registry_one :: heap where
  "registry_one =
     \<lparr> igcs = [100 \<mapsto> \<lparr> igc_arena = 1, igc_chain = 2, igc_cons_pool = 3, igc_cons_fmt = 4,
                         igc_symbol_pool = 5, igc_symbol_fmt = 6, igc_roots = 200,
                         igc_threads = 0 \<rparr>],
       root_lists = [200 \<mapsto> \<lparr> list_next = 0, list_prev = 0,
                               list_d = \<lparr> root_gc = 100, root_root = 11, root_start = 4096,
                                          root_end = 8192 \<rparr> \<rparr>] \<rparr>"

section \<open>Finalization\<close>

text \<open>
  The message queue belongs to the MPS arena. It is a list of messages, oldest first;
  a message has a type and, for a finalization message, the address of the block
  registered for finalization. \<open>mps_message_queue_type\<close> gives the type of the first
  message, \<open>mps_message_get\<close> takes the first message of a type off the queue.
\<close>

record mps_message =
  message_type :: nat
  message_ref :: mps_addr_t

record mps_arena =
  messages :: "mps_message list"

definition mps_message_type_finalization :: nat where
  "mps_message_type_finalization = 0"

definition mps_message_queue_type :: "mps_arena \<Rightarrow> nat option" where
  "mps_message_queue_type a =
     (case messages a of [] \<Rightarrow> None | msg # rest \<Rightarrow> Some (message_type msg))"

definition mps_message_get :: "mps_arena \<Rightarrow> nat \<Rightarrow> (mps_message \<times> mps_arena) option" where
  "mps_message_get a t =
     (case find (\<lambda>msg. message_type msg = t) (messages a) of
        None \<Rightarrow> None
      | Some msg \<Rightarrow> Some (msg, a\<lparr> messages := remove1 msg (messages a) \<rparr>))"

text \<open>
  Of \<open>struct Lisp_Finalizer\<close> the code uses the field \<open>function\<close>. The world of the
  drain is the arena, the finalizer objects by address, and the record of the calls of
  \<open>run_finalizer_function\<close>: for which object the call was made, the function called,
  and what the object's \<open>function\<close> field holds when the call starts.
\<close>

record Lisp_Finalizer =
  fin_function :: Lisp_Object

record finalizer_call =
  call_object :: mps_addr_t
  call_function :: Lisp_Object
  call_field :: Lisp_Object

record world =
  arena :: mps_arena
  finalizers :: "mps_addr_t \<Rightarrow> Lisp_Finalizer"
  calls :: "finalizer_call list"

text \<open>Modelled from the spec: \<open>run_finalizer_function\<close> of alloc.c, which the sources
  at hand lack, runs the callback. Here running it is putting the call on record.\<close>

definition run_finalizer_function :: "mps_addr_t \<Rightarrow> Lisp_Object \<Rightarrow> world \<Rightarrow> world" where
  "run_finalizer_function addr fun w =
     w\<lparr> calls := calls w @ [\<lparr> call_object = addr, call_function = fun,
                               call_field = fin_function (finalizers w addr) \<rparr>] \<rparr>"

definition do_finalize :: "lisp_h \<Rightarrow> world \<Rightarrow> mps_addr_t \<Rightarrow> world" where
  "do_finalize L w addr =
     (let fin = finalizers w addr
      in if fin_function fin \<noteq> Qnil L then
           let fun = fin_function fin;
               w1 = w\<lparr> finalizers := (finalizers w)(addr := fin\<lparr> fin_function := Qnil L \<rparr>) \<rparr>
           in run_finalizer_function addr fun w1
         else w)"

function handle_messages :: "bool \<Rightarrow> lisp_h \<Rightarrow> world \<Rightarrow> abort + world" where
  "handle_messages dbg L w =
     (case mps_message_queue_type (arena w) of
        None \<Rightarrow> Inr w
      | Some t \<Rightarrow>
          (case mps_message_get (arena w) t of
             None \<Rightarrow> handle_messages dbg L w
           | Some (msg, a1) \<Rightarrow>
               if dbg \<and> t \<noteq> mps_message_type_finalization then Inl emacs_abort
               else handle_messages dbg L (do_finalize L (w\<lparr> arena := a1 \<rparr>) (message_ref msg))))"
  by pat_completeness auto
termination
proof (relation "measure (\<lambda>(dbg, L, w). length (messages (arena w)))", goal_cases)
  case 1
  show ?case by simp
next
  case (2 dbg L w t)
  then show ?case
    by (auto simp: mps_message_queue_type_def mps_message_get_def split: list.splits)
next
  case (3 dbg L w t x2 msg a1)
  have arena_do_finalize: "arena (do_finalize L v a) = arena v" for v a
    by (simp add: do_finalize_def run_finalizer_function_def Let_def)
  from 3 have "msg \<in> set (messages (arena w))" "messages a1 = remove1 msg (messages (arena w))"
    by (auto simp: mps_message_get_def split: option.splits dest: find_Some_iff [THEN iffD1]
        simp: in_set_conv_nth)
  then have "length (messages a1) < length (messages (arena w))"
    by (simp add: length_remove1) (cases "messages (arena w)"; simp)
  then show ?case
    by (simp add: arena_do_finalize)
qed

declare handle_messages.simps [simp del]


definition igc_handle_messages :: "bool \<Rightarrow> lisp_h \<Rightarrow> world \<Rightarrow> abort + world" where
  "igc_handle_messages dbg L w = handle_messages dbg L w"

text \<open>
  \<open>mps_arena_step (arena, interval, multiplier)\<close> belongs to the MPS: a parameter that
  takes the arena and the two numbers to whether work was done and the new arena.
\<close>

definition igc_on_idle ::
  "(mps_arena \<Rightarrow> real \<Rightarrow> real \<Rightarrow> bool \<times> mps_arena) \<Rightarrow> world \<Rightarrow> world" where
  "igc_on_idle mps_arena_step w = w\<lparr> arena := snd (mps_arena_step (arena w) (1 / 100) 0) \<rparr>"

text \<open>A collector with nothing to do, and a world with one pending finalization message
  for the finalizer object at 4096, whose function is the word 0x5005.\<close>

definition no_work :: "mps_arena \<Rightarrow> real \<Rightarrow> real \<Rightarrow> bool \<times> mps_arena" where
  "no_work a interval multiplier = (False, a)"

definition pending_world :: world where
  "pending_world =
     \<lparr> arena = \<lparr> messages = [\<lparr> message_type = mps_message_type_finalization,
                               message_ref = 4096 \<rparr>] \<rparr>,
       finalizers = (\<lambda>a. \<lparr> fin_function = (if a = 4096 then 0x5005 else 0) \<rparr>),
       calls = [] \<rparr>"

text \<open>The life of the queue: the collector posts a message, or the program drains.\<close>

datatype event = Post mps_message | Drain

fun run_events :: "bool \<Rightarrow> lisp_h \<Rightarrow> event list \<Rightarrow> world \<Rightarrow> abort + world" where
  "run_events dbg L [] w = Inr w"
| "run_events dbg L (Post msg # es) w =
     run_events dbg L es (w\<lparr> arena := (arena w)\<lparr> messages := messages (arena w) @ [msg] \<rparr> \<rparr>)"
| "run_events dbg L (Drain # es) w =
     (case igc_handle_messages dbg L w of
        Inl a \<Rightarrow> Inl a
      | Inr w' \<Rightarrow> run_events dbg L es w')"

text \<open>
  What holds of a world \<open>w\<close> reached from \<open>w0\<close> by posting and draining: a finalizer
  object has at most one call on record, and none while its function is not nil; an
  object's function is nil or what it was in \<open>w0\<close>; every call on record was made with
  the function the object had in \<open>w0\<close>, which was not nil, and found the field already
  nil.
\<close>

definition drain_invariant :: "lisp_h \<Rightarrow> world \<Rightarrow> world \<Rightarrow> bool" where
  "drain_invariant L w0 w \<longleftrightarrow>
     (\<forall>a. length (filter (\<lambda>c. call_object c = a) (calls w))
            \<le> (if fin_function (finalizers w a) = Qnil L then 1 else 0)) \<and>
     (\<forall>a. fin_function (finalizers w a) = Qnil L \<or> finalizers w a = finalizers w0 a) \<and>
     (\<forall>c \<in> set (calls w).
        call_function c \<noteq> Qnil L \<and> call_field c = Qnil L \<and>
        call_function c = fin_function (finalizers w0 (call_object c)))"

definition finalization_only :: "mps_message list \<Rightarrow> bool" where
  "finalization_only msgs \<longleftrightarrow>
     (\<forall>msg \<in> set msgs. message_type msg = mps_message_type_finalization)"

fun posted :: "event list \<Rightarrow> mps_message list" where
  "posted [] = []"
| "posted (Post msg # es) = msg # posted es"
| "posted (Drain # es) = posted es"

text \<open>The messages the drains of a history take off the queue, in order, given the
  queue the history starts with.\<close>

fun drained :: "event list \<Rightarrow> mps_message list \<Rightarrow> mps_message list" where
  "drained [] q = []"
| "drained (Post msg # es) q = drained es (q @ [msg])"
| "drained (Drain # es) q = q @ drained es []"

text \<open>
  What the drains have done in a world \<open>w\<close> reached from \<open>w0\<close>, given the messages \<open>D\<close>
  they have taken off the queue: the object of every drained message has a nil
  function; an object whose function was not nil in \<open>w0\<close> and is nil now has its call
  on record; every call on record is for the object of a drained message; and an
  object no drained message refers to is as it was in \<open>w0\<close>.
\<close>

definition drain_record :: "lisp_h \<Rightarrow> world \<Rightarrow> mps_message list \<Rightarrow> world \<Rightarrow> bool" where
  "drain_record L w0 D w \<longleftrightarrow>
     (\<forall>msg \<in> set D. fin_function (finalizers w (message_ref msg)) = Qnil L) \<and>
     (\<forall>a. fin_function (finalizers w0 a) \<noteq> Qnil L \<and> fin_function (finalizers w a) = Qnil L
          \<longrightarrow> (\<exists>c \<in> set (calls w). call_object c = a)) \<and>
     (\<forall>c \<in> set (calls w). \<exists>msg \<in> set D. message_ref msg = call_object c) \<and>
     (\<forall>a. a \<notin> message_ref ` set D \<longrightarrow> finalizers w a = finalizers w0 a)"

section \<open>Allocation\<close>

text \<open>
  \<open>mps_reserve\<close> and \<open>mps_commit\<close> belong to the MPS. They are parameters acting on the
  state of the allocation point: \<open>mps_reserve\<close> returns a result code and the address of
  the reserved block, \<open>mps_commit\<close> returns whether the block was committed. The
  collector may look at the block when it is committed, so \<open>mps_commit\<close> is given the
  memory as it is at that moment.
\<close>

record 'ap mps_alloc =
  mps_reserve :: "'ap \<Rightarrow> nat \<Rightarrow> mps_res_t \<times> mps_addr_t \<times> 'ap"
  mps_commit :: "'ap \<Rightarrow> mem \<Rightarrow> mps_addr_t \<Rightarrow> nat \<Rightarrow> bool \<times> 'ap"


definition make_lisp_symbol :: "lisp_h \<Rightarrow> mps_addr_t \<Rightarrow> Lisp_Object" where
  "make_lisp_symbol L p = (word_of_nat p - lispsym L) + Lisp_Symbol L"






partial_function (option) igc_alloc_symbol_loop ::
  "'ap mps_alloc \<Rightarrow> nat \<Rightarrow> 'ap \<Rightarrow> mem \<Rightarrow> (abort + mps_addr_t \<times> 'ap \<times> mem) option" where
  "igc_alloc_symbol_loop A sz ap m =
     (case mps_reserve A ap sz of
        (res, p, ap1) \<Rightarrow>
          if res \<noteq> MPS_RES_OK then Some (Inl emacs_abort)
          else
            (case mps_commit A ap1 m p sz of
               (committed, ap2) \<Rightarrow>
                 if \<not> committed then igc_alloc_symbol_loop A sz ap2 m
                 else Some (Inr (p, ap2, m))))"

definition igc_alloc_symbol ::
  "lisp_h \<Rightarrow> 'ap mps_alloc \<Rightarrow> 'ap \<Rightarrow> mem \<Rightarrow> (abort + Lisp_Object \<times> 'ap \<times> mem) option" where
  "igc_alloc_symbol L A ap m =
     (case igc_alloc_symbol_loop A (sizeof_Lisp_Symbol L) ap m of
        None \<Rightarrow> None
      | Some (Inl a) \<Rightarrow> Some (Inl a)
      | Some (Inr (p, ap', m')) \<Rightarrow> Some (Inr (make_lisp_symbol L p, ap', m')))"

text \<open>An allocation point for concrete evaluation: its state counts the commits; the
  block reserved is at 0x100000 plus 64 bytes per earlier commit (modulo 4096 blocks); the first commit is
  refused, as after a flip, and every later one succeeds.\<close>

definition flip_once :: "nat mps_alloc" where
  "flip_once = \<lparr> mps_reserve = (\<lambda>ap sz. (MPS_RES_OK, 0x100000 + 64 * (ap mod 4096), ap)),
                  mps_commit = (\<lambda>ap m p sz. (0 < ap, Suc ap)) \<rparr>"


section \<open>Memory lemmas\<close>

lemma length_bytes_of_word [simp]: "length (bytes_of_word v) = 8"
  by (simp add: bytes_of_word_def)

lemma byte_step:
  "(ucast (ucast (v :: 64 word) :: 8 word) :: 64 word) OR push_bit 8 (take_bit k (drop_bit 8 v))
     = take_bit (8 + k) v"
  by (rule bit_word_eqI) (auto simp: bit_simps)

lemma word_of_bytes_prefix:
  "word_of_bytes (map (\<lambda>i. ucast (drop_bit (8 * i) v)) [0..<k]) = take_bit (8 * k) v"
proof (induction k arbitrary: v)
  case 0
  show ?case by (simp add: word_of_bytes_def)
next
  case (Suc k)
  have split: "[0..<Suc k] = 0 # map Suc [0..<k]"
    by (simp add: upt_conv_Cons map_Suc_upt del: upt_Suc)
  have "word_of_bytes (map (\<lambda>i. ucast (drop_bit (8 * i) v)) [0..<Suc k])
      = ucast (ucast v :: 8 word) OR
        push_bit 8 (word_of_bytes (map (\<lambda>i. ucast (drop_bit (8 * i) (drop_bit 8 v))) [0..<k]))"
    unfolding split by (simp add: word_of_bytes_def comp_def add.commute)
  also have "\<dots> = take_bit (8 + 8 * k) v"
    by (simp only: Suc.IH byte_step)
  finally show ?case by simp
qed

lemma word_of_bytes_of_word: "word_of_bytes (bytes_of_word v) = v"
  unfolding bytes_of_word_def word_of_bytes_prefix
  by (rule bit_word_eqI) (simp add: bit_simps)

lemma load64_store64_same [simp]: "load64 (store64 m a v) a = v"
proof -
  have "map (\<lambda>i. store64 m a v (a + i)) [0..<8] = bytes_of_word v"
    by (rule nth_equalityI) (simp_all add: store64_def memcpy_def)
  then show ?thesis
    by (simp add: load64_def word_of_bytes_of_word)
qed

lemma load64_cong:
  assumes "\<And>i. i < 8 \<Longrightarrow> m (a + i) = m' (a + i)"
  shows "load64 m a = load64 m' a"
proof -
  have "map (\<lambda>i. m (a + i)) [0..<8] = map (\<lambda>i. m' (a + i)) [0..<8]"
    by (rule map_cong) (simp_all add: assms)
  then show ?thesis unfolding load64_def by (rule arg_cong)
qed

lemma store64_outside: "x < a \<or> a + 8 \<le> x \<Longrightarrow> store64 m a v x = m x"
  by (auto simp: store64_def memcpy_def)

lemma load64_store64_other [simp]:
  "a + 8 \<le> b \<or> b + 8 \<le> a \<Longrightarrow> load64 (store64 m a v) b = load64 m b"
  by (rule load64_cong) (auto simp: store64_outside)

section \<open>Tag lemmas\<close>

lemma IGC_TAG_MASK_eq: "IGC_TAG_MASK = mask 3"
  by (simp add: IGC_TAG_MASK_def VALMASK_def GCTYPEBITS_def mask_eq_exp_minus_1)

lemma aligned_push: "(push_bit 3 z) AND IGC_TAG_MASK = 0" for z :: mps_word_t
  unfolding IGC_TAG_MASK_eq by (rule bit_word_eqI) (auto simp: bit_simps)

lemma aligned_iff: "a AND IGC_TAG_MASK = 0 \<longleftrightarrow> a = push_bit 3 (drop_bit 3 a)"
  for a :: mps_word_t
proof
  assume "a AND IGC_TAG_MASK = 0"
  then have "take_bit 3 a = 0"
    by (simp add: IGC_TAG_MASK_eq take_bit_eq_mask)
  then show "a = push_bit 3 (drop_bit 3 a)"
    using bits_ident [of 3 a] by simp
next
  assume "a = push_bit 3 (drop_bit 3 a)"
  then show "a AND IGC_TAG_MASK = 0"
    using aligned_push [of "drop_bit 3 a"] by simp
qed

lemma aligned_diff:
  assumes "a AND IGC_TAG_MASK = 0" and "b AND IGC_TAG_MASK = 0"
  shows "(a - b) AND IGC_TAG_MASK = 0"
proof -
  from assms have "a = push_bit 3 (drop_bit 3 a)" "b = push_bit 3 (drop_bit 3 b)"
    by (simp_all flip: aligned_iff)
  then have "a - b = push_bit 3 (drop_bit 3 a - drop_bit 3 b)"
    by (simp add: push_bit_eq_mult right_diff_distrib)
  then show ?thesis using aligned_push by simp
qed

lemma aligned_sum:
  assumes "a AND IGC_TAG_MASK = 0" and "b AND IGC_TAG_MASK = 0"
  shows "(a + b) AND IGC_TAG_MASK = 0"
proof -
  from assms have "a = push_bit 3 (drop_bit 3 a)" "b = push_bit 3 (drop_bit 3 b)"
    by (simp_all flip: aligned_iff)
  then have "a + b = push_bit 3 (drop_bit 3 a + drop_bit 3 b)"
    by (simp add: push_bit_eq_mult distrib_left)
  then show ?thesis using aligned_push by simp
qed

lemma tag_or_tag:
  "x AND IGC_TAG_MASK = 0 \<Longrightarrow> (x OR (w AND IGC_TAG_MASK)) AND IGC_TAG_MASK = w AND IGC_TAG_MASK"
  for x w :: mps_word_t
  by (simp add: bit.conj_disj_distrib2 and.assoc)

lemma xor_tag_aligned: "(w XOR (w AND IGC_TAG_MASK)) AND IGC_TAG_MASK = 0"
  for w :: mps_word_t
  by (rule bit_word_eqI) (auto simp: bit_simps)

lemma or_tag_xor_tag:
  assumes "x AND IGC_TAG_MASK = 0"
  shows "(x OR (w AND IGC_TAG_MASK)) XOR (w AND IGC_TAG_MASK) = x"
proof -
  have "(push_bit 3 y OR (w AND IGC_TAG_MASK)) XOR (w AND IGC_TAG_MASK) = push_bit 3 y"
    for y :: mps_word_t
    unfolding IGC_TAG_MASK_eq by (rule bit_word_eqI) (auto simp: bit_simps)
  from this [of "drop_bit 3 x"] have
    "(push_bit 3 (drop_bit 3 x) OR (w AND IGC_TAG_MASK)) XOR (w AND IGC_TAG_MASK)
       = push_bit 3 (drop_bit 3 x)" .
  moreover from assms have "x = push_bit 3 (drop_bit 3 x)"
    by (simp flip: aligned_iff)
  ultimately show ?thesis by (simp only:)
qed

lemma xor_tag_or_tag: "(w XOR (w AND IGC_TAG_MASK)) OR (w AND IGC_TAG_MASK) = w"
  for w :: mps_word_t
  by (rule bit_word_eqI) (auto simp: bit_simps)

lemma IGC_FIX_aligned_ref:
  assumes L: "lispsym L AND IGC_TAG_MASK = 0"
  shows "(if w AND IGC_TAG_MASK = Lisp_Symbol L then lispsym L + (w XOR (w AND IGC_TAG_MASK))
          else w XOR (w AND IGC_TAG_MASK)) AND IGC_TAG_MASK = 0"
proof (cases "w AND IGC_TAG_MASK = Lisp_Symbol L")
  case True
  have "(lispsym L + (w XOR (w AND IGC_TAG_MASK))) AND IGC_TAG_MASK = 0"
    by (rule aligned_sum [OF L xor_tag_aligned])
  with True show ?thesis by simp
next
  case False
  then show ?thesis using xor_tag_aligned [of w] by simp
qed

section \<open>The fix protocol preserves tags\<close>

text \<open>
  Claim C2. One application of the fix step never changes the tag of the slot: whether
  or not it writes the slot, the low three bits of the word in the slot afterwards are
  the low three bits of the word before. The collector returns the address of an
  object, which is aligned as the object format demands (\<open>GCALIGNMENT\<close>, eight bytes),
  and so is the built-in symbol table; these are the two hypotheses.
\<close>

theorem IGC_FIX_tag_preserving:
  assumes L: "lispsym L AND IGC_TAG_MASK = 0"
      and fix2: "\<And>ss r res r' ss'. MPS_FIX2 S ss r = (res, r', ss') \<Longrightarrow>
                   r AND IGC_TAG_MASK = 0 \<Longrightarrow> r' AND IGC_TAG_MASK = 0"
  shows "IGC_TAG (load64 (snd (snd (IGC_FIX L S ss m p))) p) = IGC_TAG (load64 m p)"
proof -
  define w where "w = load64 m p"
  define tag where "tag = w AND IGC_TAG_MASK"
  define ref where "ref = (if tag = Lisp_Symbol L then lispsym L + (w XOR tag) else w XOR tag)"
  obtain res ref' ss' where f2: "MPS_FIX2 S ss ref = (res, ref', ss')"
    by (cases "MPS_FIX2 S ss ref") auto
  have "ref AND IGC_TAG_MASK = 0"
    unfolding ref_def tag_def by (rule IGC_FIX_aligned_ref [OF L])
  then have r': "ref' AND IGC_TAG_MASK = 0"
    using fix2 [OF f2] by simp
  have r'': "(if tag = Lisp_Symbol L then ref' - lispsym L else ref') AND IGC_TAG_MASK = 0"
    using r' aligned_diff [OF r' L] by simp
  have "((if tag = Lisp_Symbol L then ref' - lispsym L else ref') OR tag) AND IGC_TAG_MASK = tag"
    unfolding tag_def using tag_or_tag [OF r'' [unfolded tag_def]] by simp
  then show ?thesis
    using f2
    by (simp add: IGC_FIX_def Let_def IGC_TAG_def w_def [symmetric] tag_def [symmetric]
        ref_def [symmetric])
qed

lemma moving_scan_aligned:
  "MPS_FIX2 moving_scan ss r = (res, r', ss') \<Longrightarrow> r AND IGC_TAG_MASK = 0 \<Longrightarrow>
     r' AND IGC_TAG_MASK = 0"
proof -
  assume a: "MPS_FIX2 moving_scan ss r = (res, r', ss')" and b: "r AND IGC_TAG_MASK = 0"
  have "(0x1000 :: mps_word_t) = push_bit 3 512" by simp
  then have "(0x1000 :: mps_word_t) AND IGC_TAG_MASK = 0"
    using aligned_push [of 512] by simp
  from aligned_sum [OF b this] a show ?thesis
    by (auto simp: moving_scan_def)
qed

lemma emacs_lispsym_aligned: "lispsym emacs_lisp_h AND IGC_TAG_MASK = 0"
  using aligned_push [of 8192] by (simp add: emacs_lisp_h_def)

theorem IGC_FIX_tag_preserving_witness:
  "lispsym emacs_lisp_h AND IGC_TAG_MASK = 0 \<and>
   IGC_FIX emacs_lisp_h moving_scan 0 (store64 (\<lambda>a. 0) 64 0x5003) 64
     = (MPS_RES_OK, 1, store64 (store64 (\<lambda>a. 0) 64 0x5003) 64 0x6003) \<and>
   IGC_TAG (load64 (snd (snd (IGC_FIX emacs_lisp_h moving_scan 0
                                 (store64 (\<lambda>a. 0) 64 0x5003) 64))) 64) = IGC_TAG 0x5003"
proof -
  have 1: "IGC_FIX emacs_lisp_h moving_scan 0 (store64 (\<lambda>a. 0) 64 0x5003) 64
     = (MPS_RES_OK, 1, store64 (store64 (\<lambda>a. 0) 64 0x5003) 64 0x6003)"
    by (simp add: IGC_FIX_def Let_def emacs_lisp_h_def moving_scan_def IGC_TAG_MASK_def
        VALMASK_def GCTYPEBITS_def)
  show ?thesis
    using IGC_FIX_tag_preserving [of emacs_lisp_h moving_scan 0 "store64 (\<lambda>a. 0) 64 0x5003" 64,
        OF emacs_lispsym_aligned moving_scan_aligned] 1 emacs_lispsym_aligned moving_scan_aligned
    by auto
qed

section \<open>Symbol references are offsets\<close>

lemma IGC_VAL_xor: "IGC_VAL w = w XOR (w AND IGC_TAG_MASK)"
  unfolding IGC_VAL_def by (rule bit_word_eqI) (auto simp: bit_simps)

text \<open>
  Claim C3. For a word with the symbol tag the collector is consulted with the
  symbol-table base plus the payload; when the collector is not interested the slot is
  left alone; when \<open>MPS_FIX2\<close> fails its code is returned and the slot is left alone;
  when it succeeds the base is subtracted again before the tag is put back. The word
  stored still has the symbol tag and its payload is the offset of the address the
  collector returned from the symbol table; a symbol the collector leaves in place,
  as the built-in symbols are, keeps its word.
\<close>

theorem IGC_FIX_symbol_offset:
  assumes tag: "IGC_TAG (load64 m p) = Lisp_Symbol L"
      and not_int: "Lisp_Symbol L \<noteq> Lisp_Int0 L" "Lisp_Symbol L \<noteq> Lisp_Int1 L"
  shows
    "(\<not> MPS_FIX1 S ss (lispsym L + IGC_VAL (load64 m p)) \<longrightarrow>
        IGC_FIX L S ss m p = (MPS_RES_OK, ss, m)) \<and>
     (\<forall>res ref' ss'.
        MPS_FIX1 S ss (lispsym L + IGC_VAL (load64 m p)) \<and>
        MPS_FIX2 S ss (lispsym L + IGC_VAL (load64 m p)) = (res, ref', ss') \<longrightarrow>
        (res \<noteq> MPS_RES_OK \<longrightarrow> IGC_FIX L S ss m p = (res, ss', m)) \<and>
        (res = MPS_RES_OK \<longrightarrow>
           IGC_FIX L S ss m p
             = (MPS_RES_OK, ss', store64 m p ((ref' - lispsym L) OR Lisp_Symbol L)) \<and>
           (lispsym L AND IGC_TAG_MASK = 0 \<and> ref' AND IGC_TAG_MASK = 0 \<longrightarrow>
              IGC_TAG ((ref' - lispsym L) OR Lisp_Symbol L) = Lisp_Symbol L \<and>
              lispsym L + IGC_VAL ((ref' - lispsym L) OR Lisp_Symbol L) = ref') \<and>
           (ref' = lispsym L + IGC_VAL (load64 m p) \<longrightarrow>
              (ref' - lispsym L) OR Lisp_Symbol L = load64 m p)))"
proof -
  define w where "w = load64 m p"
  have t: "w AND IGC_TAG_MASK = Lisp_Symbol L"
    using tag by (simp add: IGC_TAG_def w_def)
  have off: "w XOR Lisp_Symbol L = IGC_VAL w"
    by (simp add: IGC_VAL_xor t)
  have fix_eq: "IGC_FIX L S ss m p =
      (if MPS_FIX1 S ss (lispsym L + IGC_VAL w) then
         (case MPS_FIX2 S ss (lispsym L + IGC_VAL w) of
            (res, ref', ss') \<Rightarrow>
              if res \<noteq> MPS_RES_OK then (res, ss', m)
              else (MPS_RES_OK, ss', store64 m p ((ref' - lispsym L) OR Lisp_Symbol L)))
       else (MPS_RES_OK, ss, m))"
    using not_int
    by (simp add: IGC_FIX_def Let_def w_def [symmetric] t off split: prod.splits)
  have same: "(lispsym L + IGC_VAL w - lispsym L) OR Lisp_Symbol L = w"
    using xor_tag_or_tag [of w] by (simp add: IGC_VAL_xor t)
  have resolve: "IGC_TAG ((ref' - lispsym L) OR Lisp_Symbol L) = Lisp_Symbol L \<and>
                 lispsym L + IGC_VAL ((ref' - lispsym L) OR Lisp_Symbol L) = ref'"
    if a: "lispsym L AND IGC_TAG_MASK = 0" "ref' AND IGC_TAG_MASK = 0" for ref'
  proof -
    have x: "(ref' - lispsym L) AND IGC_TAG_MASK = 0"
      using a by (simp add: aligned_diff)
    have 1: "((ref' - lispsym L) OR Lisp_Symbol L) AND IGC_TAG_MASK = Lisp_Symbol L"
      using tag_or_tag [OF x, of w] by (simp add: t)
    have 2: "((ref' - lispsym L) OR Lisp_Symbol L) XOR Lisp_Symbol L = ref' - lispsym L"
      using or_tag_xor_tag [OF x, of w] by (simp add: t)
    show ?thesis
      by (simp add: IGC_TAG_def IGC_VAL_xor 1 2)
  qed
  show ?thesis
    unfolding w_def [symmetric] fix_eq using same resolve by auto
qed

theorem IGC_FIX_symbol_offset_witness:
  "IGC_TAG (load64 (store64 (\<lambda>a. 0) 64 0x5000) 64) = Lisp_Symbol emacs_lisp_h \<and>
   Lisp_Symbol emacs_lisp_h \<noteq> Lisp_Int0 emacs_lisp_h \<and>
   Lisp_Symbol emacs_lisp_h \<noteq> Lisp_Int1 emacs_lisp_h \<and>
   MPS_FIX1 moving_scan 0 (lispsym emacs_lisp_h + IGC_VAL (load64 (store64 (\<lambda>a. 0) 64 0x5000) 64)) \<and>
   MPS_FIX2 moving_scan 0 (lispsym emacs_lisp_h + IGC_VAL (load64 (store64 (\<lambda>a. 0) 64 0x5000) 64))
     = (MPS_RES_OK, 0x16000, 1) \<and>
   IGC_FIX emacs_lisp_h moving_scan 0 (store64 (\<lambda>a. 0) 64 0x5000) 64
     = (MPS_RES_OK, 1, store64 (store64 (\<lambda>a. 0) 64 0x5000) 64 0x6000) \<and>
   lispsym emacs_lisp_h + IGC_VAL 0x6000 = 0x16000"
proof -
  have tag: "IGC_TAG (load64 (store64 (\<lambda>a. 0) 64 0x5000) 64) = Lisp_Symbol emacs_lisp_h"
    by (simp add: IGC_TAG_def IGC_TAG_MASK_def VALMASK_def GCTYPEBITS_def emacs_lisp_h_def)
  have ni: "Lisp_Symbol emacs_lisp_h \<noteq> Lisp_Int0 emacs_lisp_h"
           "Lisp_Symbol emacs_lisp_h \<noteq> Lisp_Int1 emacs_lisp_h"
    by (simp_all add: emacs_lisp_h_def)
  have val: "IGC_VAL (0x5000 :: mps_word_t) = 0x5000" "IGC_VAL (0x6000 :: mps_word_t) = 0x6000"
    by (simp_all add: IGC_VAL_def IGC_TAG_MASK_def VALMASK_def GCTYPEBITS_def)
  have f1: "MPS_FIX1 moving_scan 0 (lispsym emacs_lisp_h + IGC_VAL (load64 (store64 (\<lambda>a. 0) 64 0x5000) 64))"
    by (simp add: moving_scan_def)
  have f2: "MPS_FIX2 moving_scan 0 (lispsym emacs_lisp_h + IGC_VAL (load64 (store64 (\<lambda>a. 0) 64 0x5000) 64))
     = (MPS_RES_OK, 0x16000, 1)"
    by (simp add: moving_scan_def emacs_lisp_h_def val)
  from IGC_FIX_symbol_offset [OF tag ni, of moving_scan 0] f1 f2
  have "IGC_FIX emacs_lisp_h moving_scan 0 (store64 (\<lambda>a. 0) 64 0x5000) 64
     = (MPS_RES_OK, 1, store64 (store64 (\<lambda>a. 0) 64 0x5000) 64
          ((0x16000 - lispsym emacs_lisp_h) OR Lisp_Symbol emacs_lisp_h))"
    by blast
  then show ?thesis
    using tag ni f1 f2 by (simp add: emacs_lisp_h_def val)
qed


lemma word_of_bytes_zero: "word_of_bytes (replicate n 0) = 0"
  by (induction n) (simp_all add: word_of_bytes_def)

lemma load64_zero: "load64 (\<lambda>a. 0) x = 0"
  by (simp add: load64_def map_replicate_const word_of_bytes_zero)

section \<open>Padding\<close>

text \<open>
  Claim C7. \<open>pad\<close> asserts \<open>size <= sizeof padding\<close>, and igc.h defines \<open>IGC_DEBUG\<close>:
  for a size of 16 bytes, which is at least the marker size and a multiple of the
  alignment, the call aborts. The loop after the assertion fills what lies beyond the
  marker, so sizes above the marker size are meant to be served; the comparison is the
  wrong way round.
\<close>

theorem pad_aborts_beyond_marker: "pad IGC_DEBUG G m addr 16 = Inl emacs_abort"
  by (simp add: pad_def IGC_ASSERT_def IGC_DEBUG_def sizeof_igc_pad_def)

text \<open>With the assertion compiled out, \<open>pad\<close> completes for every size and the block
  is recognised as padding afterwards.\<close>

lemma pad_fill_below: "x < p \<Longrightarrow> pad_fill m p e x = m x"
proof (induction m p e rule: pad_fill.induct)
  case (1 m p e)
  show ?case
  proof (cases "p < e")
    case True
    then show ?thesis
      using 1 by (subst pad_fill.simps) (simp add: Let_def memcpy_def)
  next
    case False
    then show ?thesis by (subst pad_fill.simps) simp
  qed
qed

lemma pad_without_assertion:
  "\<exists>m'. pad False G m addr sz = Inr m' \<and> is_padding G m' addr"
proof -
  have "load64 (pad_fill (store64 m addr (IGC_PADSIG G)) (addr + 8) (addr + sz)) addr
      = load64 (store64 m addr (IGC_PADSIG G)) addr"
    by (rule load64_cong) (simp add: pad_fill_below)
  then show ?thesis
    by (simp add: pad_def IGC_ASSERT_def is_padding_def sizeof_igc_pad_def)
qed

section \<open>The is-forwarded callback\<close>

text \<open>
  Claim C8, refuted as stated: \<open>cons_isfwd\<close> starts with \<open>IGC_ASSERT (false)\<close>. In the
  build igc.h selects, a call at an address that holds a forwarding marker aborts
  instead of returning the new address.
\<close>

theorem cons_isfwd_aborts:
  "is_forwarded emacs_statics (forward emacs_statics (\<lambda>a. 0) 4096 0x8000) 4096 = 0x8000 \<and>
   cons_isfwd IGC_DEBUG emacs_statics (forward emacs_statics (\<lambda>a. 0) 4096 0x8000) 4096
     = Inl emacs_abort"
  by (simp add: cons_isfwd_def IGC_ASSERT_def IGC_DEBUG_def is_forwarded_def forward_def)

text \<open>
  Claim C8, amended. With \<open>IGC_DEBUG\<close> the callback aborts on every call. Without it,
  the callback returns what \<open>is_forwarded\<close> returns: the new address where \<open>forward\<close>
  has written a marker, and \<open>NULL\<close> where the first word is not the forwarding
  signature.
\<close>

theorem cons_isfwd_by_build:
  "cons_isfwd True G m addr = Inl emacs_abort \<and>
   cons_isfwd False G m addr = Inr (is_forwarded G m addr) \<and>
   is_forwarded G (forward G m addr new) addr = new \<and>
   (load64 m addr \<noteq> IGC_FWDSIG G \<longrightarrow> is_forwarded G m addr = 0)"
  by (simp add: cons_isfwd_def IGC_ASSERT_def is_forwarded_def forward_def)

theorem cons_isfwd_by_build_witness:
  "load64 (\<lambda>a. 0) 4096 \<noteq> IGC_FWDSIG emacs_statics \<and>
   is_forwarded emacs_statics (\<lambda>a. 0) 4096 = 0 \<and>
   cons_isfwd False emacs_statics (\<lambda>a. 0) 4096 = Inr 0 \<and>
   cons_isfwd True emacs_statics (\<lambda>a. 0) 4096 = Inl emacs_abort"
proof -
  have z: "load64 (\<lambda>a. 0) 4096 = 0"
    by (rule load64_zero)
  then have "load64 (\<lambda>a. 0) 4096 \<noteq> IGC_FWDSIG emacs_statics"
    by (simp add: emacs_statics_def)
  with cons_isfwd_by_build [of emacs_statics "\<lambda>a. 0" 4096] show ?thesis
    by simp
qed

section \<open>The idle tick\<close>

text \<open>
  Claim C6, refuted as stated: \<open>igc_on_idle\<close> calls \<open>mps_arena_step\<close> and nothing else.
  With one finalization message pending and a collector that has no work, the message
  is still in the queue after the call, the finalizer still has its function, and no
  callback has run.
\<close>

theorem igc_on_idle_leaves_queue:
  "messages (arena (igc_on_idle no_work pending_world))
     = [\<lparr> message_type = mps_message_type_finalization, message_ref = 4096 \<rparr>] \<and>
   fin_function (finalizers (igc_on_idle no_work pending_world) 4096) = 0x5005 \<and>
   calls (igc_on_idle no_work pending_world) = []"
  by (simp add: igc_on_idle_def no_work_def pending_world_def)

text \<open>
  Claim C6, amended. A call of \<open>igc_on_idle\<close> is one \<open>mps_arena_step\<close> with an interval
  of 0.01 seconds and a multiplier of 0; it changes neither a finalizer object nor the
  record of the callbacks run. When the step leaves the arena as it is (no work), so
  does \<open>igc_on_idle\<close> leave the whole state.
\<close>

theorem igc_on_idle_steps_only:
  "arena (igc_on_idle step w) = snd (step (arena w) (1 / 100) 0) \<and>
   finalizers (igc_on_idle step w) = finalizers w \<and>
   calls (igc_on_idle step w) = calls w \<and>
   (snd (step (arena w) (1 / 100) 0) = arena w \<longrightarrow> igc_on_idle step w = w)"
  by (simp add: igc_on_idle_def)

theorem igc_on_idle_steps_only_witness:
  "snd (no_work (arena pending_world) (1 / 100) 0) = arena pending_world \<and>
   igc_on_idle no_work pending_world = pending_world \<and>
   calls (igc_on_idle no_work pending_world) = calls pending_world"
  using igc_on_idle_steps_only [of no_work pending_world]
  by (simp add: no_work_def)

text \<open>The same pending message is consumed, and its callback run, by \<open>handle_messages\<close>.\<close>

lemma handle_messages_pending:
  "handle_messages dbg emacs_lisp_h pending_world =
     Inr \<lparr> arena = \<lparr> messages = [] \<rparr>,
           finalizers = (\<lambda>a. \<lparr> fin_function = 0 \<rparr>),
           calls = [\<lparr> call_object = 4096, call_function = 0x5005, call_field = 0 \<rparr>] \<rparr>"
  apply (subst handle_messages.simps)
  apply (simp add: pending_world_def mps_message_queue_type_def mps_message_get_def
      mps_message_type_finalization_def do_finalize_def Let_def run_finalizer_function_def
      emacs_lisp_h_def)
  apply (subst handle_messages.simps)
  apply (simp add: mps_message_queue_type_def fun_eq_iff)
  done


section \<open>Allocating a cons\<close>
















section \<open>Allocating a symbol\<close>

lemma igc_alloc_symbol_loop_memory:
  assumes "igc_alloc_symbol_loop A sz ap m = Some y"
  shows "\<forall>p ap' m'. y = Inr (p, ap', m') \<longrightarrow> m' = m"
proof (rule igc_alloc_symbol_loop.raw_induct
    [where P = "\<lambda>A sz ap m y. \<forall>p ap' m'. y = Inr (p, ap', m') \<longrightarrow> m' = m", OF _ assms],
    goal_cases)
  case (1 loop A sz ap m y)
  obtain res p ap1 where r: "mps_reserve A ap sz = (res, p, ap1)"
    by (cases "mps_reserve A ap sz") auto
  obtain committed ap2 where c: "mps_commit A ap1 m p sz = (committed, ap2)"
    by (cases "mps_commit A ap1 m p sz") auto
  show ?case
  proof (cases "res \<noteq> MPS_RES_OK \<or> committed")
    case True
    with 1(2) r c show ?thesis by (auto split: if_splits)
  next
    case False
    with 1(2) r c have "loop A sz ap2 m = Some y" by simp
    then show ?thesis by (rule 1(1))
  qed
qed

lemma igc_alloc_symbol_writes_nothing:
  assumes "igc_alloc_symbol L A ap m = Some (Inr (s, ap', m'))"
  shows "m' = m"
proof -
  from assms obtain p where
    "igc_alloc_symbol_loop A (sizeof_Lisp_Symbol L) ap m = Some (Inr (p, ap', m'))"
    by (auto simp: igc_alloc_symbol_def split: option.splits sum.splits)
  from igc_alloc_symbol_loop_memory [OF this] show ?thesis by simp
qed

text \<open>
  Claim C5. \<open>igc_make_cons\<close> writes both slots before each commit (above), but
  \<open>igc_alloc_symbol\<close> writes nothing between \<open>mps_reserve\<close> and \<open>mps_commit\<close>: the block
  is committed with whatever bytes it held. Here every byte of memory is 0xAD before
  the call, and the symbol is committed, and returned, with every byte still 0xAD.
\<close>

theorem igc_alloc_symbol_commits_stale:
  "igc_alloc_symbol emacs_lisp_h flip_once 1 (\<lambda>a. 0xAD) = Some (Inr (0xF0040, 2, \<lambda>a. 0xAD))"
proof -
  have "igc_alloc_symbol_loop flip_once 48 1 (\<lambda>a. 0xAD) = Some (Inr (0x100040, 2, \<lambda>a. 0xAD))"
    by (subst igc_alloc_symbol_loop.simps) (simp add: flip_once_def MPS_RES_OK_def)
  then show ?thesis
    by (simp add: igc_alloc_symbol_def make_lisp_symbol_def emacs_lisp_h_def)
qed


section \<open>Registering and deregistering a root\<close>

lemma dll_dom: "dll ns p pr xs \<Longrightarrow> set xs \<subseteq> dom ns \<and> 0 \<notin> set xs"
  by (induction xs arbitrary: p pr) (auto split: option.splits)

lemma dll_cong: "(\<And>x. x \<in> set xs \<Longrightarrow> ns' x = ns x) \<Longrightarrow> dll ns' p pr xs = dll ns p pr xs"
  by (induction xs arbitrary: p pr) (auto split: option.splits)

lemma push_empty:
  assumes g: "igcs H gcp = Some g" and e: "igc_roots g = 0"
  shows "igc_root_list_push H gcp dv r =
     Some (r, H\<lparr> igcs := (igcs H)(gcp \<mapsto> g\<lparr>igc_roots := r\<rparr>),
                 root_lists := (root_lists H)(r \<mapsto> \<lparr> list_next = 0, list_prev = 0, list_d = dv \<rparr>) \<rparr>)"
  using g e by (simp add: igc_root_list_push_def set_roots_def Let_def)

lemma push_nonempty:
  assumes g: "igcs H gcp = Some g" and x: "igc_roots g = x" "x \<noteq> 0" "x \<noteq> r"
      and n: "root_lists H x = Some n"
  shows "igc_root_list_push H gcp dv r =
     Some (r, H\<lparr> igcs := (igcs H)(gcp \<mapsto> g\<lparr>igc_roots := r\<rparr>),
                 root_lists := (root_lists H)
                    (r \<mapsto> \<lparr> list_next = x, list_prev = 0, list_d = dv \<rparr>,
                     x \<mapsto> n\<lparr>list_prev := r\<rparr>) \<rparr>)"
  using g x n by (simp add: igc_root_list_push_def set_roots_def set_prev_def Let_def)

lemma remove_head_last:
  assumes g: "igcs H gcp = Some g"
      and r: "root_lists H r = Some \<lparr> list_next = 0, list_prev = 0, list_d = dv \<rparr>"
  shows "igc_root_list_remove H gcp r =
     Some (dv, H\<lparr> igcs := (igcs H)(gcp \<mapsto> g\<lparr>igc_roots := 0\<rparr>),
                  root_lists := (root_lists H)(r := None) \<rparr>)"
  using g r by (simp add: igc_root_list_remove_def set_roots_def)

lemma remove_head:
  assumes g: "igcs H gcp = Some g"
      and r: "root_lists H r = Some \<lparr> list_next = x, list_prev = 0, list_d = dv \<rparr>"
      and x: "x \<noteq> 0" "x \<noteq> r" "root_lists H x = Some n"
  shows "igc_root_list_remove H gcp r =
     Some (dv, H\<lparr> igcs := (igcs H)(gcp \<mapsto> g\<lparr>igc_roots := x\<rparr>),
                  root_lists := (root_lists H)(x \<mapsto> n\<lparr>list_prev := 0\<rparr>, r := None) \<rparr>)"
  using g r x by (simp add: igc_root_list_remove_def set_roots_def set_prev_def)

text \<open>
  Claim C10. In a well-formed registry, registering a root in a fresh node and then
  deregistering the handle returned is a round trip: \<open>register_root\<close> returns the new
  node and leaves a well-formed list with that node in front of the old ones, holding
  the root passed in; \<open>deregister_root\<close> on that handle returns the same \<open>mps_root_t\<close>
  and leaves the store exactly as it was before the registration, so the list holds
  the roots it held before and is well-formed.
\<close>

theorem register_deregister_round_trip:
  assumes wf: "registry H gcp xs" and r0: "r \<noteq> 0" and fresh: "root_lists H r = None"
  shows "\<exists>H1. register_root H gcp rootv startv endv r = Some (r, H1) \<and>
              registry H1 gcp (r # xs) \<and>
              registered_roots H1 (r # xs) = Some rootv # registered_roots H xs \<and>
              deregister_root H1 r = Some (rootv, H)"
proof -
  from wf obtain g where g: "igcs H gcp = Some g"
    and dll: "dll (root_lists H) (igc_roots g) 0 xs" and dist: "distinct xs"
    by (auto simp: registry_def split: option.splits)
  from dll_dom [OF dll] fresh have rx: "r \<notin> set xs" by auto
  define dv where "dv = \<lparr> root_gc = gcp, root_root = rootv, root_start = startv, root_end = endv \<rparr>"
  show ?thesis
  proof (cases xs)
    case Nil
    with dll have e: "igc_roots g = 0" by simp
    define H1 where "H1 = H\<lparr> igcs := (igcs H)(gcp \<mapsto> g\<lparr>igc_roots := r\<rparr>),
       root_lists := (root_lists H)(r \<mapsto> \<lparr> list_next = 0, list_prev = 0, list_d = dv \<rparr>) \<rparr>"
    have reg: "register_root H gcp rootv startv endv r = Some (r, H1)"
      unfolding register_root_def dv_def [symmetric] H1_def by (rule push_empty [OF g e])
    have restore: "H1\<lparr> igcs := (igcs H1)(gcp \<mapsto> (g\<lparr>igc_roots := r\<rparr>)\<lparr>igc_roots := 0\<rparr>),
                    root_lists := (root_lists H1)(r := None) \<rparr> = H"
      using g e fresh by (simp add: H1_def fun_upd_idem)
    have "igc_root_list_remove H1 gcp r = Some (dv, H)"
      using remove_head_last [of H1 gcp "g\<lparr>igc_roots := r\<rparr>" r dv] restore
      by (simp add: H1_def)
    then have dereg: "deregister_root H1 r = Some (rootv, H)"
      by (simp add: deregister_root_def H1_def dv_def)
    have wf1: "registry H1 gcp (r # xs)"
      using r0 by (simp add: registry_def H1_def Nil)
    have roots1: "registered_roots H1 (r # xs) = Some rootv # registered_roots H xs"
      by (simp add: registered_roots_def H1_def Nil dv_def)
    from reg wf1 roots1 dereg show ?thesis by blast
  next
    case (Cons x xs')
    with dll obtain n where x: "igc_roots g = x" "x \<noteq> 0"
      and n: "root_lists H x = Some n" "list_prev n = 0"
      and rest: "dll (root_lists H) (list_next n) x xs'"
      by (auto split: option.splits)
    from n fresh have xr: "x \<noteq> r" by auto
    define H1 where "H1 = H\<lparr> igcs := (igcs H)(gcp \<mapsto> g\<lparr>igc_roots := r\<rparr>),
       root_lists := (root_lists H)
          (r \<mapsto> \<lparr> list_next = x, list_prev = 0, list_d = dv \<rparr>, x \<mapsto> n\<lparr>list_prev := r\<rparr>) \<rparr>"
    have reg: "register_root H gcp rootv startv endv r = Some (r, H1)"
      unfolding register_root_def dv_def [symmetric] H1_def
      by (rule push_nonempty [OF g x xr n(1)])
    have nn: "n\<lparr>list_prev := 0\<rparr> = n"
      using n(2) by simp
    have restore: "H1\<lparr> igcs := (igcs H1)(gcp \<mapsto> (g\<lparr>igc_roots := r\<rparr>)\<lparr>igc_roots := x\<rparr>),
                    root_lists := (root_lists H1)(x \<mapsto> (n\<lparr>list_prev := r\<rparr>)\<lparr>list_prev := 0\<rparr>,
                                                   r := None) \<rparr> = H"
    proof -
      have "(igcs H)(gcp \<mapsto> g) = igcs H"
        using g by (simp add: fun_upd_idem)
      moreover have "(root_lists H)(r := None, x \<mapsto> n) = root_lists H"
        using n(1) fresh by (auto simp: fun_eq_iff)
      moreover have "g\<lparr>igc_roots := x\<rparr> = g"
        using x(1) by simp
      ultimately show ?thesis
        using xr by (simp add: H1_def nn fun_upd_twist)
    qed
    have "igc_root_list_remove H1 gcp r = Some (dv, H)"
      using remove_head [of H1 gcp "g\<lparr>igc_roots := r\<rparr>" r x dv "n\<lparr>list_prev := r\<rparr>"] restore x(2) xr
      by (simp add: H1_def)
    then have dereg: "deregister_root H1 r = Some (rootv, H)"
      using xr by (simp add: deregister_root_def H1_def dv_def)
    have same: "root_lists H1 y = root_lists H y" if "y \<in> set xs'" for y
    proof -
      from that dist Cons have "y \<noteq> x" by auto
      moreover from that rx Cons have "y \<noteq> r" by auto
      ultimately show ?thesis by (simp add: H1_def)
    qed
    have "dll (root_lists H1) (list_next n) x xs'"
      using rest dll_cong [of xs' "root_lists H1" "root_lists H", OF same] by simp
    then have wf1: "registry H1 gcp (r # xs)"
      using r0 x xr rx dist by (simp add: registry_def H1_def Cons)
    have "registered_roots H1 xs' = registered_roots H xs'"
      using same by (simp add: registered_roots_def)
    then have roots1: "registered_roots H1 (r # xs) = Some rootv # registered_roots H xs"
      using xr n(1) by (simp add: registered_roots_def H1_def Cons dv_def)
    from reg wf1 roots1 dereg show ?thesis by blast
  qed
qed


theorem register_deregister_round_trip_witness:
  "registry registry_one 100 [200] \<and> root_lists registry_one 300 = None \<and>
   (\<exists>H1. register_root registry_one 100 12 16384 32768 300 = Some (300, H1) \<and>
         registry H1 100 [300, 200] \<and>
         registered_roots H1 [300, 200] = [Some 12, Some 11] \<and>
         deregister_root H1 300 = Some (12, registry_one))"
proof -
  have wf: "registry registry_one 100 [200]"
    by (simp add: registry_def registry_one_def)
  have fresh: "root_lists registry_one 300 = None"
    by (simp add: registry_one_def)
  have nz: "(300 :: nat) \<noteq> 0" by simp
  have "registered_roots registry_one [200] = [Some 11]"
    by (simp add: registered_roots_def registry_one_def)
  with register_deregister_round_trip [OF wf nz fresh, of 12 16384 32768] wf fresh
  show ?thesis by auto
qed


section \<open>Draining the finalization queue\<close>

lemma drain_invariant_start: "calls w = [] \<Longrightarrow> drain_invariant L w w"
  by (simp add: drain_invariant_def)

lemma drain_invariant_arena:
  "drain_invariant L w0 (w\<lparr> arena := a \<rparr>) = drain_invariant L w0 w"
  by (simp add: drain_invariant_def)

lemma arena_do_finalize: "arena (do_finalize L w a) = arena w"
  by (simp add: do_finalize_def run_finalizer_function_def Let_def)

lemma drain_invariant_do_finalize:
  assumes "drain_invariant L w0 w"
  shows "drain_invariant L w0 (do_finalize L w a)"
proof (cases "fin_function (finalizers w a) = Qnil L")
  case True
  with assms show ?thesis by (simp add: do_finalize_def)
next
  case False
  from assms have cnt: "\<And>b. length (filter (\<lambda>c. call_object c = b) (calls w))
            \<le> (if fin_function (finalizers w b) = Qnil L then 1 else 0)"
    and orig: "\<And>b. fin_function (finalizers w b) = Qnil L \<or> finalizers w b = finalizers w0 b"
    and old: "\<And>c. c \<in> set (calls w) \<Longrightarrow> call_function c \<noteq> Qnil L \<and> call_field c = Qnil L \<and>
        call_function c = fin_function (finalizers w0 (call_object c))"
    unfolding drain_invariant_def by blast+
  from cnt [of a] False have none: "filter (\<lambda>c. call_object c = a) (calls w) = []"
    by simp
  from orig [of a] False have same: "finalizers w a = finalizers w0 a"
    by simp
  have 1: "length (filter (\<lambda>c. call_object c = b) (calls (do_finalize L w a)))
            \<le> (if fin_function (finalizers (do_finalize L w a) b) = Qnil L then 1 else 0)" for b
    using False cnt [of b] none
    by (cases "b = a") (simp_all add: do_finalize_def run_finalizer_function_def Let_def)
  have 2: "fin_function (finalizers (do_finalize L w a) b) = Qnil L \<or>
          finalizers (do_finalize L w a) b = finalizers w0 b" for b
    using False orig [of b]
    by (simp add: do_finalize_def run_finalizer_function_def Let_def)
  have 3: "call_function c \<noteq> Qnil L \<and> call_field c = Qnil L \<and>
        call_function c = fin_function (finalizers w0 (call_object c))"
    if "c \<in> set (calls (do_finalize L w a))" for c
  proof -
    from that have "c \<in> set (calls w) \<or>
        c = \<lparr> call_object = a, call_function = fin_function (finalizers w a),
              call_field = Qnil L \<rparr>"
      using False by (auto simp: do_finalize_def run_finalizer_function_def Let_def)
    then show ?thesis
      using old [of c] False same by auto
  qed
  show ?thesis
    unfolding drain_invariant_def using 1 2 3 by blast
qed

lemma handle_messages_drains:
  assumes "finalization_only (messages (arena w))" and "drain_invariant L w0 w"
  shows "\<exists>w'. handle_messages dbg L w = Inr w' \<and> messages (arena w') = [] \<and>
              drain_invariant L w0 w'"
  using assms
proof (induction "length (messages (arena w))" arbitrary: w)
  case 0
  then have "handle_messages dbg L w = Inr w"
    by (subst handle_messages.simps) (simp add: mps_message_queue_type_def)
  with 0 show ?case by simp
next
  case (Suc n)
  from Suc(2) obtain msg rest where q: "messages (arena w) = msg # rest"
    by (cases "messages (arena w)") auto
  with Suc(3) have t: "message_type msg = mps_message_type_finalization"
    and rest: "finalization_only rest"
    by (simp_all add: finalization_only_def)
  define w1 where "w1 = do_finalize L (w\<lparr> arena := (arena w)\<lparr> messages := rest \<rparr> \<rparr>) (message_ref msg)"
  have step: "handle_messages dbg L w = handle_messages dbg L w1"
    by (subst handle_messages.simps)
       (simp add: mps_message_queue_type_def mps_message_get_def q t w1_def)
  have "n = length (messages (arena w1))"
    using Suc(2) q by (simp add: w1_def arena_do_finalize)
  moreover have "finalization_only (messages (arena w1))"
    using rest by (simp add: w1_def arena_do_finalize)
  moreover have "drain_invariant L w0 w1"
    unfolding w1_def using Suc(4)
    by (intro drain_invariant_do_finalize) (simp add: drain_invariant_arena)
  ultimately show ?case
    unfolding step by (rule Suc(1))
qed

lemma run_events_invariant:
  assumes "finalization_only (messages (arena w))" and "finalization_only (posted es)"
      and "drain_invariant L w0 w"
  shows "\<exists>w'. run_events dbg L es w = Inr w' \<and> finalization_only (messages (arena w')) \<and>
              drain_invariant L w0 w'"
  using assms
proof (induction es arbitrary: w)
  case Nil
  then show ?case by simp
next
  case (Cons e es)
  show ?case
  proof (cases e)
    case (Post msg)
    with Cons.prems have "finalization_only (messages (arena w) @ [msg])"
      and "finalization_only (posted es)"
      by (auto simp: finalization_only_def)
    with Cons.prems(3) Cons.IH [of "w\<lparr> arena := (arena w)\<lparr> messages := messages (arena w) @ [msg] \<rparr> \<rparr>"]
    show ?thesis by (simp add: Post drain_invariant_arena)
  next
    case Drain
    from handle_messages_drains [OF Cons.prems(1,3), of dbg]
    obtain w1 where d: "handle_messages dbg L w = Inr w1" "messages (arena w1) = []"
      "drain_invariant L w0 w1" by blast
    with Cons.prems(2) Cons.IH [of w1] show ?thesis
      by (simp add: Drain igc_handle_messages_def finalization_only_def)
  qed
qed

lemma drain_record_start: "calls w = [] \<Longrightarrow> drain_record L w [] w"
  by (simp add: drain_record_def)

lemma drain_record_arena:
  "drain_record L w0 D (w\<lparr> arena := a \<rparr>) = drain_record L w0 D w"
  by (simp add: drain_record_def)

lemma do_finalize_cases:
  "fin_function (finalizers w a) = Qnil L \<Longrightarrow> do_finalize L w a = w"
  "fin_function (finalizers w a) \<noteq> Qnil L \<Longrightarrow>
     finalizers (do_finalize L w a) = (finalizers w)(a := (finalizers w a)\<lparr> fin_function := Qnil L \<rparr>) \<and>
     calls (do_finalize L w a) =
       calls w @ [\<lparr> call_object = a, call_function = fin_function (finalizers w a),
                     call_field = Qnil L \<rparr>]"
  by (simp_all add: do_finalize_def run_finalizer_function_def Let_def)

lemma drain_record_do_finalize:
  assumes "drain_record L w0 D w"
  shows "drain_record L w0 (D @ [msg]) (do_finalize L w (message_ref msg))"
proof -
  define a where "a = message_ref msg"
  from assms have nil: "\<And>m. m \<in> set D \<Longrightarrow> fin_function (finalizers w (message_ref m)) = Qnil L"
    and rec: "\<And>b. fin_function (finalizers w0 b) \<noteq> Qnil L \<Longrightarrow>
                 fin_function (finalizers w b) = Qnil L \<Longrightarrow> \<exists>c \<in> set (calls w). call_object c = b"
    and src: "\<And>c. c \<in> set (calls w) \<Longrightarrow> \<exists>m \<in> set D. message_ref m = call_object c"
    and rest: "\<And>b. b \<notin> message_ref ` set D \<Longrightarrow> finalizers w b = finalizers w0 b"
    unfolding drain_record_def by blast+
  show ?thesis
  proof (cases "fin_function (finalizers w a) = Qnil L")
    case True
    then have same: "do_finalize L w a = w" by (rule do_finalize_cases(1))
    have 1: "fin_function (finalizers w (message_ref m)) = Qnil L" if "m \<in> set (D @ [msg])" for m
      using that nil True by (auto simp: a_def)
    have 3: "\<exists>m \<in> set (D @ [msg]). message_ref m = call_object c" if "c \<in> set (calls w)" for c
      using src [OF that] by auto
    have 4: "finalizers w b = finalizers w0 b" if "b \<notin> message_ref ` set (D @ [msg])" for b
      using that rest [of b] by auto
    show ?thesis
      unfolding a_def [symmetric] same drain_record_def using 1 rec 3 4 by blast
  next
    case False
    from do_finalize_cases(2) [OF False]
    have f: "finalizers (do_finalize L w a) = (finalizers w)(a := (finalizers w a)\<lparr> fin_function := Qnil L \<rparr>)"
      and c: "calls (do_finalize L w a) =
       calls w @ [\<lparr> call_object = a, call_function = fin_function (finalizers w a),
                     call_field = Qnil L \<rparr>]"
      by simp_all
    have 1: "fin_function (finalizers (do_finalize L w a) (message_ref m)) = Qnil L"
      if "m \<in> set (D @ [msg])" for m
      using that nil by (auto simp: f a_def [symmetric])
    have 2: "\<exists>c \<in> set (calls (do_finalize L w a)). call_object c = b"
      if "fin_function (finalizers w0 b) \<noteq> Qnil L"
         "fin_function (finalizers (do_finalize L w a) b) = Qnil L" for b
    proof (cases "b = a")
      case True
      then show ?thesis by (simp add: c)
    next
      case False
      with that have "fin_function (finalizers w b) = Qnil L" by (simp add: f)
      from rec [OF that(1) this] show ?thesis by (auto simp: c)
    qed
    have 3: "\<exists>m \<in> set (D @ [msg]). message_ref m = call_object c"
      if "c \<in> set (calls (do_finalize L w a))" for c
    proof -
      from that have "c \<in> set (calls w) \<or> call_object c = a"
        by (auto simp: c)
      then show ?thesis
        using src [of c] by (auto simp: a_def)
    qed
    have 4: "finalizers (do_finalize L w a) b = finalizers w0 b"
      if "b \<notin> message_ref ` set (D @ [msg])" for b
    proof -
      from that have "b \<noteq> a" "b \<notin> message_ref ` set D" by (auto simp: a_def)
      then show ?thesis using rest [of b] by (simp add: f)
    qed
    show ?thesis
      unfolding a_def [symmetric] drain_record_def using 1 2 3 4 by blast
  qed
qed

lemma handle_messages_record:
  assumes "finalization_only (messages (arena w))" and "drain_record L w0 D w"
  shows "\<exists>w'. handle_messages dbg L w = Inr w' \<and> messages (arena w') = [] \<and>
              drain_record L w0 (D @ messages (arena w)) w'"
  using assms
proof (induction "length (messages (arena w))" arbitrary: w D)
  case 0
  then have "handle_messages dbg L w = Inr w"
    by (subst handle_messages.simps) (simp add: mps_message_queue_type_def)
  with 0 show ?case by simp
next
  case (Suc n)
  from Suc(2) obtain msg rest where q: "messages (arena w) = msg # rest"
    by (cases "messages (arena w)") auto
  with Suc(3) have t: "message_type msg = mps_message_type_finalization"
    and rest: "finalization_only rest"
    by (simp_all add: finalization_only_def)
  define w1 where "w1 = do_finalize L (w\<lparr> arena := (arena w)\<lparr> messages := rest \<rparr> \<rparr>) (message_ref msg)"
  have step: "handle_messages dbg L w = handle_messages dbg L w1"
    by (subst handle_messages.simps)
       (simp add: mps_message_queue_type_def mps_message_get_def q t w1_def)
  have q1: "messages (arena w1) = rest"
    by (simp add: w1_def arena_do_finalize)
  have "n = length (messages (arena w1))"
    using Suc(2) q by (simp add: q1)
  moreover have "finalization_only (messages (arena w1))"
    using rest by (simp add: q1)
  moreover have "drain_record L w0 (D @ [msg]) w1"
    unfolding w1_def using Suc(4)
    by (intro drain_record_do_finalize) (simp add: drain_record_arena)
  ultimately have "\<exists>w'. handle_messages dbg L w1 = Inr w' \<and> messages (arena w') = [] \<and>
              drain_record L w0 ((D @ [msg]) @ messages (arena w1)) w'"
    by (rule Suc(1))
  then show ?case
    by (simp add: step q q1)
qed

lemma run_events_record:
  assumes "finalization_only (messages (arena w))" and "finalization_only (posted es)"
      and "drain_record L w0 D w"
  shows "\<exists>w'. run_events dbg L es w = Inr w' \<and>
              drain_record L w0 (D @ drained es (messages (arena w))) w'"
  using assms
proof (induction es arbitrary: w D)
  case Nil
  then show ?case by simp
next
  case (Cons e es)
  show ?case
  proof (cases e)
    case (Post msg)
    define v where "v = w\<lparr> arena := (arena w)\<lparr> messages := messages (arena w) @ [msg] \<rparr> \<rparr>"
    from Post Cons.prems have "finalization_only (messages (arena v))"
      and "finalization_only (posted es)"
      by (auto simp: finalization_only_def v_def)
    moreover from Cons.prems(3) have "drain_record L w0 D v"
      by (simp add: v_def drain_record_arena)
    ultimately have "\<exists>w'. run_events dbg L es v = Inr w' \<and>
              drain_record L w0 (D @ drained es (messages (arena v))) w'"
      by (rule Cons.IH)
    then show ?thesis
      by (simp add: Post v_def)
  next
    case Drain
    from handle_messages_record [OF Cons.prems(1,3), of dbg]
    obtain w1 where d: "handle_messages dbg L w = Inr w1" "messages (arena w1) = []"
      "drain_record L w0 (D @ messages (arena w)) w1" by blast
    from Drain Cons.prems(2) have "finalization_only (posted es)" by simp
    with d(2) Cons.IH [of w1 "D @ messages (arena w)", OF _ _ d(3)]
    have "\<exists>w'. run_events dbg L es w1 = Inr w' \<and>
              drain_record L w0 ((D @ messages (arena w)) @ drained es []) w'"
      by (simp add: finalization_only_def)
    with d(1) show ?thesis
      by (simp add: Drain igc_handle_messages_def)
  qed
qed

lemma drain_record_calls:
  assumes rec: "drain_record L w D v" and inv: "drain_invariant L w v"
  shows "(\<forall>msg \<in> set D.
            fin_function (finalizers v (message_ref msg)) = Qnil L \<and>
            (fin_function (finalizers w (message_ref msg)) \<noteq> Qnil L \<longrightarrow>
               (\<exists>c \<in> set (calls v).
                  call_object c = message_ref msg \<and>
                  call_function c = fin_function (finalizers w (message_ref msg))))) \<and>
         (\<forall>c \<in> set (calls v). \<exists>msg \<in> set D. message_ref msg = call_object c) \<and>
         (\<forall>a. a \<notin> message_ref ` set D \<longrightarrow> finalizers v a = finalizers w a)"
proof -
  from inv have fn: "\<And>c. c \<in> set (calls v) \<Longrightarrow>
      call_function c = fin_function (finalizers w (call_object c))"
    unfolding drain_invariant_def by blast
  from rec have nil: "\<And>m. m \<in> set D \<Longrightarrow> fin_function (finalizers v (message_ref m)) = Qnil L"
    and got: "\<And>b. fin_function (finalizers w b) \<noteq> Qnil L \<Longrightarrow>
                 fin_function (finalizers v b) = Qnil L \<Longrightarrow> \<exists>c \<in> set (calls v). call_object c = b"
    and src: "\<forall>c \<in> set (calls v). \<exists>m \<in> set D. message_ref m = call_object c"
    and rest: "\<forall>b. b \<notin> message_ref ` set D \<longrightarrow> finalizers v b = finalizers w b"
    unfolding drain_record_def by blast+
  have "\<exists>c \<in> set (calls v). call_object c = message_ref m \<and>
          call_function c = fin_function (finalizers w (message_ref m))"
    if "m \<in> set D" "fin_function (finalizers w (message_ref m)) \<noteq> Qnil L" for m
  proof -
    from got [OF that(2) nil [OF that(1)]] obtain c where
      c: "c \<in> set (calls v)" "call_object c = message_ref m" by blast
    from fn [OF c(1)] c show ?thesis by auto
  qed
  with nil src rest show ?thesis by blast
qed


text \<open>
  Claim C9. Start with no call on record and let the collector post finalization
  messages and the program drain, in any order. Then no finalizer object has more than
  one call on record; every call was made with the function the object had at the
  start, which was not nil, and found the object's field already nil; and a drain now
  returns with the queue empty. Every message the drains have taken off the queue has
  been served: its finalizer object has a nil function now, and if the object's
  function was not nil at the start, the call of that function is on record. Calls are
  on record for the objects of drained messages only, and an object no drained message
  refers to is unchanged. The same holds after the further drain, for the messages it
  takes off the queue as well. Finalization is the only message type \<open>make_igc\<close>
  enables, which is why the queue holds finalization messages only.
\<close>

theorem drain_runs_each_finalizer_once:
  assumes queue: "finalization_only (messages (arena w))"
      and posts: "finalization_only (posted es)"
      and fresh: "calls w = []"
  shows "\<exists>w' w''. run_events dbg L es w = Inr w' \<and>
           (\<forall>a. length (filter (\<lambda>c. call_object c = a) (calls w')) \<le> 1) \<and>
           (\<forall>c \<in> set (calls w').
              call_function c \<noteq> Qnil L \<and> call_field c = Qnil L \<and>
              call_function c = fin_function (finalizers w (call_object c))) \<and>
           igc_handle_messages dbg L w' = Inr w'' \<and> messages (arena w'') = [] \<and>
           (\<forall>msg \<in> set (drained es (messages (arena w))).
              fin_function (finalizers w' (message_ref msg)) = Qnil L \<and>
              (fin_function (finalizers w (message_ref msg)) \<noteq> Qnil L \<longrightarrow>
                 (\<exists>c \<in> set (calls w').
                    call_object c = message_ref msg \<and>
                    call_function c = fin_function (finalizers w (message_ref msg))))) \<and>
           (\<forall>c \<in> set (calls w').
              \<exists>msg \<in> set (drained es (messages (arena w))). message_ref msg = call_object c) \<and>
           (\<forall>a. a \<notin> message_ref ` set (drained es (messages (arena w))) \<longrightarrow>
              finalizers w' a = finalizers w a) \<and>
           (\<forall>a. length (filter (\<lambda>c. call_object c = a) (calls w'')) \<le> 1) \<and>
           (\<forall>c \<in> set (calls w'').
              call_function c \<noteq> Qnil L \<and> call_field c = Qnil L \<and>
              call_function c = fin_function (finalizers w (call_object c))) \<and>
           (\<forall>msg \<in> set (drained es (messages (arena w)) @ messages (arena w')).
              fin_function (finalizers w'' (message_ref msg)) = Qnil L \<and>
              (fin_function (finalizers w (message_ref msg)) \<noteq> Qnil L \<longrightarrow>
                 (\<exists>c \<in> set (calls w'').
                    call_object c = message_ref msg \<and>
                    call_function c = fin_function (finalizers w (message_ref msg))))) \<and>
           (\<forall>c \<in> set (calls w'').
              \<exists>msg \<in> set (drained es (messages (arena w)) @ messages (arena w')).
                 message_ref msg = call_object c) \<and>
           (\<forall>a. a \<notin> message_ref ` set (drained es (messages (arena w)) @ messages (arena w')) \<longrightarrow>
              finalizers w'' a = finalizers w a)"
proof -
  define D where "D = drained es (messages (arena w))"
  from run_events_invariant [OF queue posts drain_invariant_start [OF fresh], of dbg]
  obtain w' where r: "run_events dbg L es w = Inr w'"
    and q: "finalization_only (messages (arena w'))" and inv: "drain_invariant L w w'"
    by blast
  from run_events_record [OF queue posts drain_record_start [OF fresh, of L], where dbg = dbg] r
  have rec: "drain_record L w D w'"
    by (auto simp: D_def)
  from handle_messages_drains [OF q inv, of dbg]
  obtain w'' where d: "igc_handle_messages dbg L w' = Inr w''" "messages (arena w'') = []"
    and inv2: "drain_invariant L w w''"
    by (auto simp: igc_handle_messages_def)
  from handle_messages_record [OF q rec, of dbg] d(1)
  have rec2: "drain_record L w (D @ messages (arena w')) w''"
    by (auto simp: igc_handle_messages_def)
  have once: "length (filter (\<lambda>c. call_object c = a) (calls v)) \<le> 1"
    if "drain_invariant L w v" for a v
  proof -
    from that have "length (filter (\<lambda>c. call_object c = a) (calls v))
            \<le> (if fin_function (finalizers v a) = Qnil L then 1 else 0)"
      by (simp add: drain_invariant_def)
    then show ?thesis by (simp split: if_splits)
  qed
  have how: "\<forall>c \<in> set (calls v).
              call_function c \<noteq> Qnil L \<and> call_field c = Qnil L \<and>
              call_function c = fin_function (finalizers w (call_object c))"
    if "drain_invariant L w v" for v
    using that unfolding drain_invariant_def by blast
  note a1 = once [OF inv] and a2 = how [OF inv] and a3 = drain_record_calls [OF rec inv]
    and b1 = once [OF inv2] and b2 = how [OF inv2] and b3 = drain_record_calls [OF rec2 inv2]
  show ?thesis
    unfolding D_def [symmetric]
    apply (rule exI [of _ w'], rule exI [of _ w''])
    apply (intro conjI)
    using r a1 a2 d a3 b1 b2 b3 apply blast+
    done
qed

lemma run_events_pending:
  "run_events dbg emacs_lisp_h
     [Drain, Post \<lparr> message_type = mps_message_type_finalization, message_ref = 4096 \<rparr>, Drain]
     pending_world =
   Inr \<lparr> arena = \<lparr> messages = [] \<rparr>,
         finalizers = (\<lambda>a. \<lparr> fin_function = 0 \<rparr>),
         calls = [\<lparr> call_object = 4096, call_function = 0x5005, call_field = 0 \<rparr>] \<rparr>"
proof -
  have "handle_messages dbg emacs_lisp_h
     \<lparr> arena = \<lparr> messages = [\<lparr> message_type = mps_message_type_finalization,
                               message_ref = 4096 \<rparr>] \<rparr>,
       finalizers = (\<lambda>a. \<lparr> fin_function = 0 \<rparr>),
       calls = [\<lparr> call_object = 4096, call_function = 0x5005, call_field = 0 \<rparr>] \<rparr>
    = Inr \<lparr> arena = \<lparr> messages = [] \<rparr>,
         finalizers = (\<lambda>a. \<lparr> fin_function = 0 \<rparr>),
         calls = [\<lparr> call_object = 4096, call_function = 0x5005, call_field = 0 \<rparr>] \<rparr>"
    apply (subst handle_messages.simps)
    apply (simp add: mps_message_queue_type_def mps_message_get_def do_finalize_def Let_def
        emacs_lisp_h_def)
    apply (subst handle_messages.simps)
    apply (simp add: mps_message_queue_type_def)
    done
  then show ?thesis
    by (simp add: igc_handle_messages_def handle_messages_pending)
qed

theorem drain_runs_each_finalizer_once_witness:
  "finalization_only (messages (arena pending_world)) \<and>
   finalization_only
     (posted [Drain, Post \<lparr> message_type = mps_message_type_finalization, message_ref = 4096 \<rparr>,
              Drain]) \<and>
   calls pending_world = [] \<and>
   drained [Drain, Post \<lparr> message_type = mps_message_type_finalization, message_ref = 4096 \<rparr>,
            Drain] (messages (arena pending_world))
     = [\<lparr> message_type = mps_message_type_finalization, message_ref = 4096 \<rparr>,
        \<lparr> message_type = mps_message_type_finalization, message_ref = 4096 \<rparr>] \<and>
   fin_function (finalizers pending_world 4096) \<noteq> Qnil emacs_lisp_h \<and>
   (\<exists>w'. run_events IGC_DEBUG emacs_lisp_h
            [Drain, Post \<lparr> message_type = mps_message_type_finalization, message_ref = 4096 \<rparr>,
             Drain] pending_world = Inr w' \<and>
         calls w' = [\<lparr> call_object = 4096, call_function = 0x5005, call_field = 0 \<rparr>] \<and>
         length (filter (\<lambda>c. call_object c = 4096) (calls w')) \<le> 1 \<and>
         fin_function (finalizers w' 4096) = Qnil emacs_lisp_h \<and>
         (\<exists>c \<in> set (calls w'). call_object c = 4096 \<and>
                                 call_function c = fin_function (finalizers pending_world 4096)))"
proof -
  have q: "finalization_only (messages (arena pending_world))"
    by (simp add: finalization_only_def pending_world_def)
  have p: "finalization_only
     (posted [Drain, Post \<lparr> message_type = mps_message_type_finalization, message_ref = 4096 \<rparr>,
              Drain])"
    by (simp add: finalization_only_def)
  have c: "calls pending_world = []"
    by (simp add: pending_world_def)
  have d: "drained [Drain, Post \<lparr> message_type = mps_message_type_finalization, message_ref = 4096 \<rparr>,
            Drain] (messages (arena pending_world))
     = [\<lparr> message_type = mps_message_type_finalization, message_ref = 4096 \<rparr>,
        \<lparr> message_type = mps_message_type_finalization, message_ref = 4096 \<rparr>]"
    by (simp add: pending_world_def)
  have f: "fin_function (finalizers pending_world 4096) \<noteq> Qnil emacs_lisp_h"
    by (simp add: pending_world_def emacs_lisp_h_def)
  from drain_runs_each_finalizer_once [OF q p c, of IGC_DEBUG emacs_lisp_h]
  obtain w' where r: "run_events IGC_DEBUG emacs_lisp_h
            [Drain, Post \<lparr> message_type = mps_message_type_finalization, message_ref = 4096 \<rparr>,
             Drain] pending_world = Inr w'"
    and once: "\<forall>a. length (filter (\<lambda>c. call_object c = a) (calls w')) \<le> 1"
    and each: "\<forall>msg \<in> set (drained [Drain, Post \<lparr> message_type = mps_message_type_finalization,
                   message_ref = 4096 \<rparr>, Drain] (messages (arena pending_world))).
              fin_function (finalizers w' (message_ref msg)) = Qnil emacs_lisp_h \<and>
              (fin_function (finalizers pending_world (message_ref msg)) \<noteq> Qnil emacs_lisp_h \<longrightarrow>
                 (\<exists>c \<in> set (calls w').
                    call_object c = message_ref msg \<and>
                    call_function c = fin_function (finalizers pending_world (message_ref msg))))"
    by blast
  from each f have "fin_function (finalizers w' 4096) = Qnil emacs_lisp_h \<and>
     (\<exists>c \<in> set (calls w'). call_object c = 4096 \<and>
                             call_function c = fin_function (finalizers pending_world 4096))"
    unfolding d by simp
  moreover from r run_events_pending [of IGC_DEBUG]
  have "calls w' = [\<lparr> call_object = 4096, call_function = 0x5005, call_field = 0 \<rparr>]"
    by simp
  ultimately show ?thesis
    using q p c d f r once by blast
qed


section \<open>Scanning the cons pool\<close>

lemma IGC_FIX_frame:
  assumes "x < p \<or> p + 8 \<le> x"
  shows "snd (snd (IGC_FIX L S ss m p)) x = m x"
  using assms by (auto simp: IGC_FIX_def Let_def store64_outside split: prod.splits)

lemma fix_slots_frame:
  assumes "\<forall>p \<in> set ps. x < p \<or> p + 8 \<le> x"
  shows "snd (snd (fix_slots L S ss m ps)) x = m x"
  using assms
proof (induction ps arbitrary: ss m)
  case Nil
  show ?case by simp
next
  case (Cons p ps)
  obtain res ss' m' where f: "IGC_FIX L S ss m p = (res, ss', m')"
    by (cases "IGC_FIX L S ss m p") auto
  from Cons.prems have "x < p \<or> p + 8 \<le> x" by simp
  from IGC_FIX_frame [OF this, of L S ss m] f have m': "m' x = m x" by simp
  show ?case
  proof (cases "res = MPS_RES_OK")
    case True
    with f Cons.IH [of ss' m'] Cons.prems m' show ?thesis by simp
  next
    case False
    with f m' show ?thesis by simp
  qed
qed

lemma marker_cong:
  assumes "\<And>i. i < 16 \<Longrightarrow> m' (a + i) = m (a + i)"
  shows "is_forwarded G m' a = is_forwarded G m a" and "is_padding G m' a = is_padding G m a"
proof -
  have 1: "load64 m' a = load64 m a"
    by (rule load64_cong) (simp add: assms)
  have 2: "load64 m' (a + 8) = load64 m (a + 8)"
    by (rule load64_cong) (simp add: assms add.assoc)
  show "is_forwarded G m' a = is_forwarded G m a" "is_padding G m' a = is_padding G m a"
    by (simp_all add: is_forwarded_def is_padding_def 1 2)
qed

lemma div16_step:
  assumes "base < limit"
  shows "(limit - base + 15) div 16 = Suc ((limit - (base + 16) + 15) div 16)"
proof (cases "base + 16 \<le> limit")
  case True
  then obtain e where e: "limit = base + 16 + e"
    using le_Suc_ex by blast
  have "(e + 15 + 16) div 16 = Suc ((e + 15) div 16)"
    by simp
  then show ?thesis
    by (simp add: e)
next
  case False
  with assms obtain d where d: "limit = base + d" "0 < d" "d < 16"
    using less_imp_add_positive [OF assms] by auto
  have "(d + 15) div 16 = 1"
    by (rule div_nat_eqI) (use d in simp_all)
  then show ?thesis
    using d by (simp add: d(1))
qed

lemma cons_objects_unfold:
  "cons_objects base limit = map (\<lambda>k. base + 16 * k) [0..<(limit - base + 15) div 16]"
  by (simp add: cons_objects_def sizeof_Lisp_Cons_def)

lemma cons_objects_rec:
  "cons_objects base limit =
     (if base < limit then base # cons_objects (base + sizeof_Lisp_Cons) limit else [])"
proof (cases "base < limit")
  case False
  then show ?thesis by (simp add: cons_objects_unfold)
next
  case True
  define n where "n = (limit - (base + 16) + 15) div 16"
  have n: "(limit - base + 15) div 16 = Suc n"
    unfolding n_def by (rule div16_step [OF True])
  have "[0..<Suc n] = 0 # map Suc [0..<n]"
    by (simp add: upt_conv_Cons map_Suc_upt del: upt_Suc)
  then have "map (\<lambda>k. base + 16 * k) [0..<Suc n] = base # map (\<lambda>k. base + 16 + 16 * k) [0..<n]"
    by (simp add: comp_def del: upt_Suc)
  then have 1: "cons_objects base limit = base # map (\<lambda>k. base + 16 + 16 * k) [0..<n]"
    by (simp only: cons_objects_unfold n)
  have 2: "cons_objects (base + sizeof_Lisp_Cons) limit = map (\<lambda>k. base + 16 + 16 * k) [0..<n]"
    by (simp only: cons_objects_unfold sizeof_Lisp_Cons_def n_def)
  show ?thesis using True by (simp only: 1 2 if_True)
qed

lemma cons_objects_ge: "a \<in> set (cons_objects base limit) \<Longrightarrow> base \<le> a"
  by (auto simp: cons_objects_def)

lemma cons_slots_rec:
  "cons_slots G m base limit =
     (if base < limit then
        (if is_forwarded G m base \<noteq> 0 \<or> is_padding G m base then []
         else [car_slot base, cdr_slot base]) @ cons_slots G m (base + sizeof_Lisp_Cons) limit
      else [])"
  by (subst cons_slots_def, subst cons_objects_rec) (simp add: cons_slots_def)

lemma cons_slots_cong:
  assumes "\<And>x. base \<le> x \<Longrightarrow> m' x = m x"
  shows "cons_slots G m' base limit = cons_slots G m base limit"
proof -
  have "is_forwarded G m' a = is_forwarded G m a \<and> is_padding G m' a = is_padding G m a"
    if "a \<in> set (cons_objects base limit)" for a
  proof -
    from cons_objects_ge [OF that] have "m' (a + i) = m (a + i)" for i
      by (simp add: assms)
    then show ?thesis
      using marker_cong [of m' a m G] by simp
  qed
  then show ?thesis
    unfolding cons_slots_def by (intro arg_cong [where f = concat] map_cong) auto
qed

lemma cons_scan_loop_fix_slots:
  "cons_scan_loop L G S ss m cons limit = fix_slots L S ss m (cons_slots G m cons limit)"
proof (induction "limit - cons" arbitrary: cons ss m rule: less_induct)
  case less
  show ?case
  proof (cases "cons < limit")
    case False
    then show ?thesis
      by (subst cons_scan_loop.simps, subst cons_slots_rec) simp
  next
    case True
    then have smaller: "limit - (cons + sizeof_Lisp_Cons) < limit - cons"
      by (simp add: sizeof_Lisp_Cons_def)
    show ?thesis
    proof (cases "is_forwarded G m cons \<noteq> 0 \<or> is_padding G m cons")
      case marker: True
      with True less [OF smaller, of ss m] show ?thesis
        by (subst cons_scan_loop.simps, subst cons_slots_rec) simp
    next
      case object: False
      obtain res1 ss1 m1 where f1: "IGC_FIX L S ss m (car_slot cons) = (res1, ss1, m1)"
        by (cases "IGC_FIX L S ss m (car_slot cons)") auto
      obtain res2 ss2 m2 where f2: "IGC_FIX L S ss1 m1 (cdr_slot cons) = (res2, ss2, m2)"
        by (cases "IGC_FIX L S ss1 m1 (cdr_slot cons)") auto
      have "m2 x = m x" if "cons + sizeof_Lisp_Cons \<le> x" for x
      proof -
        from that have "car_slot cons + 8 \<le> x" "cdr_slot cons + 8 \<le> x"
          by (simp_all add: car_slot_def cdr_slot_def sizeof_Lisp_Cons_def)
        then show ?thesis
          using IGC_FIX_frame [of x "car_slot cons" L S ss m]
            IGC_FIX_frame [of x "cdr_slot cons" L S ss1 m1] f1 f2
          by simp
      qed
      then have later: "cons_slots G m2 (cons + sizeof_Lisp_Cons) limit
                          = cons_slots G m (cons + sizeof_Lisp_Cons) limit"
        by (rule cons_slots_cong)
      from True object f1 f2 less [OF smaller, of ss2 m2] later show ?thesis
        by (subst cons_scan_loop.simps, subst cons_slots_rec) simp
    qed
  qed
qed


lemma cons_objects_set:
  "set (cons_objects base limit) = {a. a < limit \<and> (\<exists>k. a = base + sizeof_Lisp_Cons * k)}"
proof -
  have iff: "k < (limit - base + 15) div 16 \<longleftrightarrow> base + 16 * k < limit" for k
  proof -
    have "k < (limit - base + 15) div 16 \<longleftrightarrow> Suc k \<le> (limit - base + 15) div 16"
      by (simp add: Suc_le_eq)
    also have "\<dots> \<longleftrightarrow> Suc k * 16 \<le> limit - base + 15"
      by (rule less_eq_div_iff_mult_less_eq) simp
    also have "\<dots> \<longleftrightarrow> base + 16 * k < limit"
      by (simp add: less_diff_conv) linarith
    finally show ?thesis .
  qed
  show ?thesis
    unfolding cons_objects_unfold sizeof_Lisp_Cons_def by (auto simp: iff)
qed

lemma sorted_wrt_map_upt: "sorted_wrt (<) (map (\<lambda>k. base + 16 * k) [0..<n])"
  for base :: nat
  by (induction n) (auto simp: sorted_wrt_append)

lemma cons_objects_sorted: "sorted_wrt (<) (cons_objects base limit)"
  unfolding cons_objects_unfold by (rule sorted_wrt_map_upt)

lemma cons_slots_object:
  assumes "p \<in> set (cons_slots G m base limit)"
  shows "\<exists>c \<in> set (cons_objects base limit).
           \<not> (is_forwarded G m c \<noteq> 0 \<or> is_padding G m c) \<and> (p = c \<or> p = c + 8)"
  using assms by (auto simp: cons_slots_def car_slot_def cdr_slot_def split: if_splits)

lemma marker_untouched:
  assumes c: "c \<in> set (cons_objects base limit)"
      and marker: "is_forwarded G m c \<noteq> 0 \<or> is_padding G m c"
      and i: "i < sizeof_Lisp_Cons"
      and p: "p \<in> set (cons_slots G m base limit)"
  shows "c + i < p \<or> p + 8 \<le> c + i"
proof -
  from cons_slots_object [OF p] obtain c' where c': "c' \<in> set (cons_objects base limit)"
    and obj: "\<not> (is_forwarded G m c' \<noteq> 0 \<or> is_padding G m c')" and pc: "p = c' \<or> p = c' + 8"
    by blast
  from c c' obtain k k' where k: "c = base + 16 * k" "c' = base + 16 * k'"
    by (auto simp: cons_objects_set sizeof_Lisp_Cons_def)
  from marker obj have "k \<noteq> k'" using k by auto
  then have "k < k' \<or> k' < k" by auto
  then show ?thesis
    using k pc i by (auto simp: sizeof_Lisp_Cons_def)
qed

text \<open>What the scanner takes for a marker: the padding signature in the first word, or
  the forwarding signature in the first word with a new address other than \<open>NULL\<close> in
  the second, which is what \<open>forward\<close> writes for an object that has moved.\<close>

lemma marker_test:
  "is_forwarded G m c \<noteq> 0 \<or> is_padding G m c \<longleftrightarrow>
     load64 m c = IGC_FWDSIG G \<and> load64 m (c + 8) \<noteq> 0 \<or> load64 m c = IGC_PADSIG G"
  by (simp add: is_forwarded_def is_padding_def)

text \<open>
  Claim C4. A scan of \<open>[base, limit)\<close> is the fix protocol run over the car and the cdr
  of every object that is not a marker, in address order, stopping at the first
  \<open>MPS_FIX2\<close> that fails: the objects are the addresses \<open>base + 16 * k\<close> below \<open>limit\<close>,
  in increasing order, and whether an object is a marker is read from the memory as
  it is when the scan starts. No byte outside these slots changes; in particular an
  object that is a marker keeps all its sixteen bytes.
\<close>

theorem cons_scan_fixes_car_and_cdr:
  "cons_scan L G S ss m base limit = fix_slots L S ss m (cons_slots G m base limit) \<and>
   sorted_wrt (<) (cons_objects base limit) \<and>
   set (cons_objects base limit) = {a. a < limit \<and> (\<exists>k. a = base + sizeof_Lisp_Cons * k)} \<and>
   (\<forall>x. (\<forall>p \<in> set (cons_slots G m base limit). x < p \<or> p + 8 \<le> x) \<longrightarrow>
        snd (snd (cons_scan L G S ss m base limit)) x = m x) \<and>
   (\<forall>c \<in> set (cons_objects base limit).
      is_forwarded G m c \<noteq> 0 \<or> is_padding G m c \<longrightarrow>
      (\<forall>i < sizeof_Lisp_Cons. snd (snd (cons_scan L G S ss m base limit)) (c + i) = m (c + i)))"
proof -
  have scan: "cons_scan L G S ss m base limit = fix_slots L S ss m (cons_slots G m base limit)"
    by (simp add: cons_scan_def cons_scan_loop_fix_slots)
  have frame: "snd (snd (cons_scan L G S ss m base limit)) x = m x"
    if "\<forall>p \<in> set (cons_slots G m base limit). x < p \<or> p + 8 \<le> x" for x
    unfolding scan using that by (rule fix_slots_frame)
  have skip: "snd (snd (cons_scan L G S ss m base limit)) (c + i) = m (c + i)"
    if "c \<in> set (cons_objects base limit)" "is_forwarded G m c \<noteq> 0 \<or> is_padding G m c"
       "i < sizeof_Lisp_Cons" for c i
    by (rule frame) (use that marker_untouched in blast)
  show ?thesis
    using scan cons_objects_sorted cons_objects_set frame skip by blast
qed

lemma scan_example_words:
  "load64 scan_example 4096 = 0x5003" "load64 scan_example 4104 = 0"
  "load64 scan_example 4112 = IGC_PADSIG emacs_statics"
  "load64 scan_example 4120 = 0"
  "load64 scan_example 4128 = IGC_FWDSIG emacs_statics"
  "load64 scan_example 4136 = 0x8000"
  by (simp_all add: scan_example_def load64_zero)

lemma scan_example_slots: "cons_slots emacs_statics scan_example 4096 4144 = [4096, 4104]"
proof -
  have "cons_slots emacs_statics scan_example 4144 4144 = []"
    by (subst cons_slots_rec) simp
  then have "cons_slots emacs_statics scan_example 4128 4144 = []"
    by (subst cons_slots_rec)
       (simp add: sizeof_Lisp_Cons_def is_forwarded_def scan_example_words emacs_statics_def)
  then have "cons_slots emacs_statics scan_example 4112 4144 = []"
    by (subst cons_slots_rec)
       (simp add: sizeof_Lisp_Cons_def is_padding_def scan_example_words)
  then show ?thesis
    by (subst cons_slots_rec)
       (simp add: sizeof_Lisp_Cons_def is_forwarded_def is_padding_def scan_example_words
          emacs_statics_def car_slot_def cdr_slot_def)
qed

theorem cons_scan_fixes_car_and_cdr_witness:
  "cons_slots emacs_statics scan_example 4096 4144 = [4096, 4104] \<and>
   cons_scan emacs_lisp_h emacs_statics moving_scan 0 scan_example 4096 4144
     = (MPS_RES_OK, 2, store64 (store64 scan_example 4096 0x6003) 4104 0x1000) \<and>
   load64 (snd (snd (cons_scan emacs_lisp_h emacs_statics moving_scan 0 scan_example 4096 4144)))
     4112 = IGC_PADSIG emacs_statics"
proof -
  have 1: "IGC_FIX emacs_lisp_h moving_scan 0 scan_example 4096
             = (MPS_RES_OK, 1, store64 scan_example 4096 0x6003)"
    by (simp add: IGC_FIX_def Let_def scan_example_words emacs_lisp_h_def moving_scan_def
        IGC_TAG_MASK_def VALMASK_def GCTYPEBITS_def)
  have 2: "IGC_FIX emacs_lisp_h moving_scan (Suc 0) (store64 scan_example 4096 0x6003) 4104
             = (MPS_RES_OK, 2, store64 (store64 scan_example 4096 0x6003) 4104 0x1000)"
    by (simp add: IGC_FIX_def Let_def scan_example_words emacs_lisp_h_def moving_scan_def
        IGC_TAG_MASK_def VALMASK_def GCTYPEBITS_def)
  have "fix_slots emacs_lisp_h moving_scan 0 scan_example [4096, 4104]
          = (MPS_RES_OK, 2, store64 (store64 scan_example 4096 0x6003) 4104 0x1000)"
    by (simp add: 1 2 MPS_RES_OK_def)
  with cons_scan_fixes_car_and_cdr [of emacs_lisp_h emacs_statics moving_scan 0 scan_example 4096 4144]
    scan_example_slots
  show ?thesis
    by (simp add: scan_example_words)
qed


end
